theory Spec2Isabelle
  imports Complex_Main "HOL-Library.Word" "HOL-Library.Product_Lexorder"
begin

unbundle bit_operations_syntax

section \<open>Bytes, buffers and errors\<close>

text \<open>
  A \<open>Uint8Array\<close> is a list of bytes. A byte is a natural number below 256; every
  place where the source stores a wider number into a byte array writes the reduction
  out. JavaScript numbers are doubles: integer arithmetic on them is exact below
  \<open>2 ^ 53\<close>, which is the range all statements below stay in.
\<close>

type_synonym byte = nat

datatype error =
    Negative
  | Truncated
  | TooLarge
  | TooShort
  | BadMagic
  | BadVersion
  | BadCrc
  | BadTag
  | Malformed
  | RangeError
  | BadLength
  | UncodedSymbol
  | BadCode
  | LengthMismatch
  | BadMethod
  | MissingCollaborator
  | TooManyStrings
  | TypeError

section \<open>Variable-length unsigned integers (codec/varint.ts)\<close>

text \<open>
  The do-while loop of \<open>encode_varint\<close>: \<open>value & 0x7f\<close>, then
  \<open>Math.floor(value / 128)\<close>, the continuation bit when something is left.
\<close>

function varint_bytes :: "nat \<Rightarrow> byte list" where
  "varint_bytes v =
     (let byte = v AND 0x7f; v' = v div 128
      in if v' > 0 then (byte OR 0x80) # varint_bytes v' else [byte])"
  by pat_completeness auto
termination
  by (relation "measure id") auto

declare varint_bytes.simps [simp del]

text \<open>\<open>encode_varint\<close> rejects a negative number and runs the loop otherwise.\<close>

definition encode_varint :: "int \<Rightarrow> error + byte list" where
  "encode_varint v = (if v < 0 then Inl Negative else Inr (varint_bytes (nat v)))"

text \<open>
  The while loop of \<open>decode_varint\<close>, with its three exits: the terminator byte, the
  guard \<open>shift > 49\<close> after a continuation byte, and the end of the buffer.
\<close>

function decode_varint_loop ::
  "byte list \<Rightarrow> nat \<Rightarrow> nat \<Rightarrow> nat \<Rightarrow> nat \<Rightarrow> error + (nat \<times> nat)" where
  "decode_varint_loop buf offset v shift pos =
     (if pos < length buf then
        (let byte = buf ! pos;
             v' = v + (byte AND 0x7f) * 2 ^ shift;
             pos' = pos + 1
         in if byte AND 0x80 = 0 then Inr (v', pos' - offset)
            else (let shift' = shift + 7
                  in if shift' > 49 then Inl TooLarge
                     else decode_varint_loop buf offset v' shift' pos'))
      else Inl Truncated)"
  by pat_completeness auto
termination
  by (relation "measure (\<lambda>(buf, offset, v, shift, pos). length buf - pos)") auto

declare decode_varint_loop.simps [simp del]

definition decode_varint :: "byte list \<Rightarrow> nat \<Rightarrow> error + (nat \<times> nat)" where
  "decode_varint buf offset = decode_varint_loop buf offset 0 0 offset"

section \<open>Typed-array primitives\<close>

text \<open>
  \<open>buf.set(src, off)\<close> copies \<open>src\<close> into \<open>buf\<close> at \<open>off\<close> and throws a RangeError
  when the source does not fit. \<open>buf.slice(a, b)\<close> and \<open>buf.subarray(a, b)\<close> clip to
  the buffer and never throw. Reading \<open>buf[i]\<close> past the end yields \<open>undefined\<close>.
\<close>

definition set_bytes :: "byte list \<Rightarrow> byte list \<Rightarrow> nat \<Rightarrow> error + byte list" where
  "set_bytes buf src off =
     (if off + length src > length buf then Inl RangeError
      else Inr (take off buf @ src @ drop (off + length src) buf))"

definition slice :: "byte list \<Rightarrow> nat \<Rightarrow> nat \<Rightarrow> byte list" where
  "slice buf a b = take (b - a) (drop a buf)"

definition byte_opt :: "byte list \<Rightarrow> nat \<Rightarrow> byte option" where
  "byte_opt buf i = (if i < length buf then Some (buf ! i) else None)"

definition bind_err :: "error + 'a \<Rightarrow> ('a \<Rightarrow> error + 'b) \<Rightarrow> error + 'b" where
  "bind_err r f = (case r of Inl e \<Rightarrow> Inl e | Inr x \<Rightarrow> f x)"

section \<open>Timestamps and roles (codec/constants.ts)\<close>

definition HASH_SIZE :: nat where "HASH_SIZE = 32"
definition NONCE_SIZE :: nat where "NONCE_SIZE = 24"
definition TIMESTAMP_SIZE :: nat where "TIMESTAMP_SIZE = 6"

definition TAG_FILE_NODE :: byte where "TAG_FILE_NODE = 0x01"
definition TAG_DIR_NODE :: byte where "TAG_DIR_NODE = 0x02"
definition TAG_COMPRESSED_BLOB :: byte where "TAG_COMPRESSED_BLOB = 0x10"

text \<open>
  A decoded timestamp is a JavaScript number, and it is \<open>NaN\<close> when one of its six
  bytes lies past the end of the buffer (\<open>val * 256 + undefined\<close>).
\<close>

datatype jsnum = Num nat | NaN

text \<open>
  \<open>encode_timestamp\<close>: for \<open>i = 5\<close> down to \<open>0\<close>, \<open>buf[i] = val & 0xff\<close> and
  \<open>val = Math.floor(val / 256)\<close>. The first argument counts the bytes still to write.
  On \<open>NaN\<close> every \<open>NaN & 0xff\<close> is 0.
\<close>

fun encode_timestamp_loop :: "nat \<Rightarrow> nat \<Rightarrow> byte list \<Rightarrow> byte list" where
  "encode_timestamp_loop 0 val buf = buf"
| "encode_timestamp_loop (Suc i) val buf =
     encode_timestamp_loop i (val div 256) (buf[i := val AND 0xff])"

definition encode_timestamp :: "jsnum \<Rightarrow> byte list" where
  "encode_timestamp ts =
     (case ts of
        Num v \<Rightarrow> encode_timestamp_loop 6 v (replicate 6 0)
      | NaN \<Rightarrow> replicate 6 0)"

definition js_mul256_add :: "jsnum \<Rightarrow> byte option \<Rightarrow> jsnum" where
  "js_mul256_add val b =
     (case val of
        NaN \<Rightarrow> NaN
      | Num v \<Rightarrow> (case b of None \<Rightarrow> NaN | Some x \<Rightarrow> Num (v * 256 + x)))"

definition decode_timestamp :: "byte list \<Rightarrow> nat \<Rightarrow> jsnum" where
  "decode_timestamp buf offset =
     fold (\<lambda>i val. js_mul256_add val (byte_opt buf (offset + i))) [0..<6] (Num 0)"

section \<open>CRC-32 (codec/crc32.ts)\<close>

text \<open>
  The bitwise operators of the source work on 32-bit integers, and every shift is the
  unsigned \<open>>>>\<close>, so the checksum is a 32-bit word.
\<close>

fun crc_table_loop :: "nat \<Rightarrow> 32 word \<Rightarrow> 32 word" where
  "crc_table_loop 0 crc = crc"
| "crc_table_loop (Suc j) crc =
     crc_table_loop j
       (if crc AND 1 \<noteq> 0 then drop_bit 1 crc XOR 0xedb88320 else drop_bit 1 crc)"

definition TABLE :: "nat \<Rightarrow> 32 word" where
  "TABLE i = crc_table_loop 8 (of_nat i)"

definition crc32_step :: "32 word \<Rightarrow> byte \<Rightarrow> 32 word" where
  "crc32_step crc b = TABLE (unat ((crc XOR of_nat b) AND 0xff)) XOR drop_bit 8 crc"

definition crc32 :: "byte list \<Rightarrow> 32 word" where
  "crc32 data = foldl crc32_step 0xffffffff data XOR 0xffffffff"

definition crc32_bytes :: "byte list \<Rightarrow> byte list" where
  "crc32_bytes data =
     (let c = crc32 data
      in [unat (drop_bit 24 c AND 0xff), unat (drop_bit 16 c AND 0xff),
          unat (drop_bit 8 c AND 0xff), unat (c AND 0xff)])"

text \<open>\<open>DataView.getUint32\<close> at the last four bytes, big-endian.\<close>

definition getUint32 :: "byte list \<Rightarrow> nat \<Rightarrow> nat" where
  "getUint32 buf off =
     buf ! off * 2 ^ 24 + buf ! (off + 1) * 2 ^ 16 + buf ! (off + 2) * 2 ^ 8 + buf ! (off + 3)"

definition verify_crc32 :: "byte list \<Rightarrow> bool" where
  "verify_crc32 buf =
     (if length buf < 4 then False
      else (let payload = take (length buf - 4) buf;
                expected = crc32 payload
            in getUint32 buf (length buf - 4) = unat expected))"

section \<open>Envelope (codec/constants.ts)\<close>

definition ENVELOPE_HEADER_SIZE :: nat where "ENVELOPE_HEADER_SIZE = 4"
definition ENVELOPE_FOOTER_SIZE :: nat where "ENVELOPE_FOOTER_SIZE = 4"

text \<open>
  \<open>write_envelope\<close> allocates header, payload and footer at once, so none of its
  writes can fall outside the buffer; the tag is stored into a byte.
\<close>

definition write_envelope :: "nat \<Rightarrow> byte list \<Rightarrow> byte list" where
  "write_envelope tag payload =
     (let crc_input = [0x5a, 0x4b, 0x01, tag mod 256] @ payload
      in crc_input @ crc32_bytes crc_input)"

definition read_envelope :: "byte list \<Rightarrow> error + (byte \<times> byte list)" where
  "read_envelope buf =
     (if length buf < ENVELOPE_HEADER_SIZE + ENVELOPE_FOOTER_SIZE then Inl TooShort
      else if buf ! 0 \<noteq> 0x5a \<or> buf ! 1 \<noteq> 0x4b then Inl BadMagic
      else if buf ! 2 \<noteq> 0x01 then Inl BadVersion
      else if \<not> verify_crc32 buf then Inl BadCrc
      else Inr (buf ! 3, slice buf ENVELOPE_HEADER_SIZE (length buf - ENVELOPE_FOOTER_SIZE)))"

definition has_magic :: "byte list \<Rightarrow> bool" where
  "has_magic buf = (length buf \<ge> 2 \<and> buf ! 0 = 0x5a \<and> buf ! 1 = 0x4b)"

section \<open>Chunk references and file nodes (codec/chunk-ref.ts, codec/file-node.ts)\<close>

record chunk_ref =
  index :: nat
  hash :: "byte list"
  blob_address :: "byte list"
  nonce :: "byte list"

record file_node =
  content_hash :: "byte list"
  size :: nat
  created :: jsnum
  modified :: jsnum
  chunks :: "chunk_ref list"

definition encode_chunk_ref :: "chunk_ref \<Rightarrow> error + byte list" where
  "encode_chunk_ref r =
     (let index_bytes = varint_bytes (index r);
          total = length index_bytes + HASH_SIZE + HASH_SIZE + NONCE_SIZE;
          buf = replicate total 0;
          offset = 0
      in bind_err (set_bytes buf index_bytes offset) (\<lambda>buf.
         let offset = offset + length index_bytes
         in bind_err (set_bytes buf (hash r) offset) (\<lambda>buf.
            let offset = offset + HASH_SIZE
            in bind_err (set_bytes buf (blob_address r) offset) (\<lambda>buf.
               let offset = offset + HASH_SIZE
               in set_bytes buf (nonce r) offset))))"

definition decode_chunk_ref :: "byte list \<Rightarrow> nat \<Rightarrow> error + (chunk_ref \<times> nat)" where
  "decode_chunk_ref buf offset =
     (let start = offset
      in bind_err (decode_varint buf offset) (\<lambda>(idx, index_len).
         let offset = offset + index_len;
             h = slice buf offset (offset + HASH_SIZE);
             offset = offset + HASH_SIZE;
             ba = slice buf offset (offset + HASH_SIZE);
             offset = offset + HASH_SIZE;
             n = slice buf offset (offset + NONCE_SIZE);
             offset = offset + NONCE_SIZE
         in Inr (\<lparr>index = idx, hash = h, blob_address = ba, nonce = n\<rparr>, offset - start)))"

text \<open>The first loop of \<open>encode_file_node\<close>: encode every chunk, stop at the first throw.\<close>

fun encode_chunks :: "chunk_ref list \<Rightarrow> error + byte list list" where
  "encode_chunks [] = Inr []"
| "encode_chunks (c # cs) =
     bind_err (encode_chunk_ref c) (\<lambda>b.
     bind_err (encode_chunks cs) (\<lambda>bs. Inr (b # bs)))"

text \<open>The last loop of \<open>encode_file_node\<close>: copy the chunk buffers one after the other.\<close>

fun set_chunk_bufs :: "byte list \<Rightarrow> byte list list \<Rightarrow> nat \<Rightarrow> error + byte list" where
  "set_chunk_bufs payload [] offset = Inr payload"
| "set_chunk_bufs payload (b # bs) offset =
     bind_err (set_bytes payload b offset) (\<lambda>payload.
     set_chunk_bufs payload bs (offset + length b))"

definition encode_file_node_payload :: "file_node \<Rightarrow> error + byte list" where
  "encode_file_node_payload node =
     (let size_bytes = varint_bytes (size node);
          chunk_count_bytes = varint_bytes (length (chunks node))
      in bind_err (encode_chunks (chunks node)) (\<lambda>chunk_bufs.
         let chunks_total = sum_list (map length chunk_bufs);
             payload_len = HASH_SIZE + TIMESTAMP_SIZE + TIMESTAMP_SIZE + length size_bytes
                           + length chunk_count_bytes + chunks_total;
             payload = replicate payload_len 0;
             offset = 0
         in bind_err (set_bytes payload (content_hash node) offset) (\<lambda>payload.
            let offset = offset + HASH_SIZE
            in bind_err (set_bytes payload (encode_timestamp (created node)) offset) (\<lambda>payload.
               let offset = offset + TIMESTAMP_SIZE
               in bind_err (set_bytes payload (encode_timestamp (modified node)) offset) (\<lambda>payload.
                  let offset = offset + TIMESTAMP_SIZE
                  in bind_err (set_bytes payload size_bytes offset) (\<lambda>payload.
                     let offset = offset + length size_bytes
                     in bind_err (set_bytes payload chunk_count_bytes offset) (\<lambda>payload.
                        let offset = offset + length chunk_count_bytes
                        in set_chunk_bufs payload chunk_bufs offset)))))))"

definition encode_file_node :: "file_node \<Rightarrow> error + byte list" where
  "encode_file_node node =
     bind_err (encode_file_node_payload node) (\<lambda>payload.
       Inr (write_envelope TAG_FILE_NODE payload))"

function decode_chunks_loop ::
  "byte list \<Rightarrow> nat \<Rightarrow> nat \<Rightarrow> nat \<Rightarrow> chunk_ref list \<Rightarrow> error + chunk_ref list" where
  "decode_chunks_loop payload chunk_count i offset cs =
     (if i < chunk_count then
        (case decode_chunk_ref payload offset of
           Inl e \<Rightarrow> Inl e
         | Inr (chunk, bytes_read) \<Rightarrow>
             decode_chunks_loop payload chunk_count (i + 1) (offset + bytes_read) (cs @ [chunk]))
      else Inr cs)"
  by pat_completeness auto
termination
  by (relation "measure (\<lambda>(payload, chunk_count, i, offset, cs). chunk_count - i)") auto

declare decode_chunks_loop.simps [simp del]

definition decode_file_node_payload :: "byte list \<Rightarrow> error + file_node" where
  "decode_file_node_payload payload =
     (let offset = 0;
          ch = slice payload offset (offset + HASH_SIZE);
          offset = offset + HASH_SIZE;
          cr = decode_timestamp payload offset;
          offset = offset + TIMESTAMP_SIZE;
          mo = decode_timestamp payload offset;
          offset = offset + TIMESTAMP_SIZE
      in bind_err (decode_varint payload offset) (\<lambda>(sz, size_len).
         let offset = offset + size_len
         in bind_err (decode_varint payload offset) (\<lambda>(chunk_count, cc_len).
            let offset = offset + cc_len
            in bind_err (decode_chunks_loop payload chunk_count 0 offset []) (\<lambda>cs.
               Inr \<lparr>content_hash = ch, size = sz, created = cr, modified = mo, chunks = cs\<rparr>))))"

definition decode_file_node :: "byte list \<Rightarrow> error + file_node" where
  "decode_file_node buf =
     bind_err (read_envelope buf) (\<lambda>(tag, payload).
       if tag \<noteq> TAG_FILE_NODE then Inl BadTag else decode_file_node_payload payload)"

section \<open>Directory nodes (codec/dir-node.ts)\<close>

record dir_node =
  smt_root :: "byte list"
  group_id :: "byte list option"
  dir_created :: jsnum
  dir_modified :: jsnum

definition encode_dir_node_payload :: "dir_node \<Rightarrow> error + byte list" where
  "encode_dir_node_payload node =
     (let has_group = (group_id node \<noteq> None);
          payload_len = HASH_SIZE + 1 + (if has_group then HASH_SIZE else 0)
                        + TIMESTAMP_SIZE + TIMESTAMP_SIZE;
          payload = replicate payload_len 0;
          offset = 0
      in bind_err (set_bytes payload (smt_root node) offset) (\<lambda>payload.
         let offset = offset + HASH_SIZE;
             payload = payload[offset := (if has_group then 0x01 else 0x00)];
             offset = offset + 1
         in bind_err (case group_id node of
                        None \<Rightarrow> Inr (payload, offset)
                      | Some g \<Rightarrow> bind_err (set_bytes payload g offset) (\<lambda>payload.
                                    Inr (payload, offset + HASH_SIZE)))
              (\<lambda>(payload, offset).
                bind_err (set_bytes payload (encode_timestamp (dir_created node)) offset) (\<lambda>payload.
                let offset = offset + TIMESTAMP_SIZE
                in set_bytes payload (encode_timestamp (dir_modified node)) offset))))"

definition encode_dir_node :: "dir_node \<Rightarrow> error + byte list" where
  "encode_dir_node node =
     bind_err (encode_dir_node_payload node) (\<lambda>payload.
       Inr (write_envelope TAG_DIR_NODE payload))"

text \<open>
  \<open>decode_dir_node_payload\<close> has no throwing statement: the has-group test is
  \<open>payload[offset] === 0x01\<close>, slices clip and a short timestamp is \<open>NaN\<close>. Its result
  is a sum all the same, so that a failure can be stated.
\<close>

definition decode_dir_node_payload :: "byte list \<Rightarrow> error + dir_node" where
  "decode_dir_node_payload payload =
     (let offset = 0;
          sr = slice payload offset (offset + HASH_SIZE);
          offset = offset + HASH_SIZE;
          has_group = (byte_opt payload offset = Some 0x01);
          offset = offset + 1;
          gid = (if has_group then Some (slice payload offset (offset + HASH_SIZE)) else None);
          offset = (if has_group then offset + HASH_SIZE else offset);
          cr = decode_timestamp payload offset;
          offset = offset + TIMESTAMP_SIZE;
          mo = decode_timestamp payload offset
      in Inr \<lparr>smt_root = sr, group_id = gid, dir_created = cr, dir_modified = mo\<rparr>)"

definition decode_dir_node :: "byte list \<Rightarrow> error + dir_node" where
  "decode_dir_node buf =
     bind_err (read_envelope buf) (\<lambda>(tag, payload).
       if tag \<noteq> TAG_DIR_NODE then Inl BadTag else decode_dir_node_payload payload)"

section \<open>Node dispatcher (codec/node.ts)\<close>

datatype node = File file_node | Dir dir_node

definition encode_node :: "node \<Rightarrow> error + byte list" where
  "encode_node n = (case n of File f \<Rightarrow> encode_file_node f | Dir d \<Rightarrow> encode_dir_node d)"

text \<open>
  The legacy branch hands the buffer to \<open>TextDecoder\<close> and \<open>JSON.parse\<close>, which are
  not part of this repository: it is the parameter \<open>legacy\<close>.
\<close>

definition decode_node :: "(byte list \<Rightarrow> error + node) \<Rightarrow> byte list \<Rightarrow> error + node" where
  "decode_node legacy buf =
     (if has_magic buf then
        bind_err (read_envelope buf) (\<lambda>(tag, payload).
          if tag = TAG_FILE_NODE then bind_err (decode_file_node_payload payload) (\<lambda>f. Inr (File f))
          else if tag = TAG_DIR_NODE then bind_err (decode_dir_node_payload payload) (\<lambda>d. Inr (Dir d))
          else Inl BadTag)
      else legacy buf)"

section \<open>Canonical prefix code (compress/symbol-tree.ts)\<close>

text \<open>
  A \<open>SymbolTree\<close> is its array of 256 code lengths. \<open>TreeNode\<close> is a leaf with a
  symbol or a node with two children; the queue of \<open>build_tree\<close> pairs a frequency with
  a tree.
\<close>

datatype tree_node = Leaf nat | Branch tree_node tree_node

text \<open>
  The insertion \<open>while (i < q.length && q[i].freq <= parent.freq) i++\<close> followed by
  \<open>q.splice(i, 0, parent)\<close>.
\<close>

definition insert_sorted :: "nat \<times> tree_node \<Rightarrow> (nat \<times> tree_node) list \<Rightarrow> (nat \<times> tree_node) list" where
  "insert_sorted parent q =
     takeWhile (\<lambda>x. fst x \<le> fst parent) q @ parent # dropWhile (\<lambda>x. fst x \<le> fst parent) q"

function merge_loop :: "(nat \<times> tree_node) list \<Rightarrow> (nat \<times> tree_node) list" where
  "merge_loop q =
     (case q of
        l # r # rest \<Rightarrow>
          merge_loop (insert_sorted (fst l + fst r, Branch (snd l) (snd r)) rest)
      | _ \<Rightarrow> q)"
  by pat_completeness auto
termination
proof (relation "measure length", goal_cases)
  case 1
  show ?case by simp
next
  case (2 q l rest r rest')
  have "length (takeWhile P rest') + length (dropWhile P rest') = length rest'"
    for P :: "nat \<times> tree_node \<Rightarrow> bool"
    by (metis length_append takeWhile_dropWhile_id)
  then show ?case using 2 by (simp add: insert_sorted_def)
qed

declare merge_loop.simps [simp del]

text \<open>\<open>walk\<close> stores \<open>Math.min(depth, 15)\<close> at every leaf, left subtree first.\<close>

fun walk :: "tree_node \<Rightarrow> nat \<Rightarrow> nat list \<Rightarrow> nat list" where
  "walk (Leaf s) depth lengths = lengths[s := min depth 15]"
| "walk (Branch l r) depth lengths = walk r (depth + 1) (walk l (depth + 1) lengths)"

definition active_symbols :: "nat list \<Rightarrow> (nat \<times> nat) list" where
  "active_symbols frequencies =
     map (\<lambda>i. (i, frequencies ! i)) (filter (\<lambda>i. frequencies ! i > 0) [0..<256])"

text \<open>
  The first \<open>while\<close> loop of \<open>from_frequencies\<close> merges \<open>nodes\<close> and hands the result
  to \<open>build_tree\<close>, which ignores its argument and starts again from the active
  symbols, sorted by frequency with the stable \<open>Array.prototype.sort\<close>. Nothing else
  reads \<open>nodes\<close>, so that loop has no counterpart here.
\<close>

definition build_tree :: "(nat \<times> nat) list \<Rightarrow> nat list \<Rightarrow> nat list" where
  "build_tree active lengths =
     (let q = sort_key fst (map (\<lambda>(s, f). (f, Leaf s)) active);
          q = merge_loop q
      in case q of [] \<Rightarrow> lengths | t # _ \<Rightarrow> walk (snd t) 0 lengths)"

text \<open>
  \<open>clamp_lengths\<close>. Its array always has 256 entries, so each loop over \<open>i < 256\<close> is
  a pass over the list: the clamping pass a \<open>map\<close>, the repair pass \<open>repair\<close>, which
  stops changing entries once \<open>kraft\<close> is no longer above 1. The sum \<open>kraft\<close> is a
  double in the source; all its terms are powers of two between \<open>2 ^ -15\<close> and
  \<open>1 / 2\<close>, at most 256 of them, so the double arithmetic is exact and the sum is a
  rational here.
\<close>

definition kraft_sum :: "nat list \<Rightarrow> rat" where
  "kraft_sum lengths = sum_list (map (\<lambda>l. if l > 0 then 1 / of_nat (2 ^ l) else 0) lengths)"

fun repair :: "nat list \<Rightarrow> nat \<Rightarrow> rat \<Rightarrow> nat list" where
  "repair [] max_len kraft = []"
| "repair (l # ls) max_len kraft =
     (if kraft > 1 then
        (if l > 0 \<and> l < max_len
         then (l + 1) # repair ls max_len (kraft - 1 / of_nat (2 ^ l) + 1 / of_nat (2 ^ (l + 1)))
         else l # repair ls max_len kraft)
      else l # ls)"

function clamp_lengths :: "nat list \<Rightarrow> nat \<Rightarrow> nat list" where
  "clamp_lengths lengths max_len =
     (let overflow = list_ex (\<lambda>l. l > max_len) lengths;
          lengths = map (\<lambda>l. if l > max_len then max_len else l) lengths
      in if \<not> overflow then lengths
         else (let kraft = kraft_sum lengths;
                   lengths = (if kraft > 1 then repair lengths max_len kraft else lengths)
               in clamp_lengths lengths max_len))"
  by pat_completeness auto
termination
proof (relation "measure (\<lambda>(lengths, max_len). length (filter (\<lambda>l. l > max_len) lengths))",
    goal_cases)
  case 1
  show ?case by simp
next
  case (2 lengths max_len x xa xb xc)
  have rep: "list_all (\<lambda>l. l \<le> max_len) ls \<Longrightarrow> list_all (\<lambda>l. l \<le> max_len) (repair ls max_len k)"
    for ls k
    by (induction ls arbitrary: k) auto
  have "xa = map (\<lambda>l. if l > max_len then max_len else l) lengths"
    using 2 by simp
  then have "list_all (\<lambda>l. l \<le> max_len) xa"
    by (auto simp: list_all_iff)
  then have "list_all (\<lambda>l. l \<le> max_len) xc"
    using rep 2 by simp
  then have "filter (\<lambda>l. l > max_len) xc = []"
    by (auto simp: filter_empty_conv list_all_iff)
  moreover have "filter (\<lambda>l. l > max_len) lengths \<noteq> []"
    using 2 by (auto simp: filter_empty_conv list_ex_iff)
  ultimately show ?case by simp
qed

declare clamp_lengths.simps [simp del]

definition from_frequencies :: "nat list \<Rightarrow> error + nat list" where
  "from_frequencies frequencies =
     (if length frequencies \<noteq> 256 then Inl BadLength
      else (let active = active_symbols frequencies;
                lengths = replicate 256 0
            in if length active = 0 then Inr lengths
               else if length active = 1 then Inr (lengths[fst (active ! 0) := 1])
               else Inr (clamp_lengths (build_tree active lengths) 15)))"

text \<open>
  \<open>build_encode_table\<close>: the active symbols sorted by length, then symbol, and the
  canonical codes assigned in that order. An entry of the table is \<open>(code, length)\<close>.
  The shift of the source is a 32-bit one; with lengths up to 15 and at most 256
  symbols no code reaches \<open>2 ^ 31\<close>.
\<close>

definition code_symbols :: "nat list \<Rightarrow> (nat \<times> nat) list" where
  "code_symbols lengths =
     sort_key (\<lambda>(s, l). (l, s))
       (map (\<lambda>i. (i, lengths ! i)) (filter (\<lambda>i. lengths ! i > 0) [0..<256]))"

fun assign_codes ::
  "(nat \<times> nat) list \<Rightarrow> nat \<Rightarrow> nat \<Rightarrow> (nat \<times> nat) list \<Rightarrow> (nat \<times> nat) list" where
  "assign_codes [] code prev_len table = table"
| "assign_codes ((s, l) # ss) code prev_len table =
     (let code = (if prev_len > 0 then push_bit (l - prev_len) (code + 1) else code)
      in assign_codes ss code l (table[s := (code, l)]))"

definition build_encode_table :: "nat list \<Rightarrow> (nat \<times> nat) list" where
  "build_encode_table lengths = assign_codes (code_symbols lengths) 0 0 (replicate 256 (0, 0))"

text \<open>
  \<open>build_decode_table\<close>: the key \<open>(length << 16) | code\<close> maps to the symbol and its
  length. The list holds the \<open>decode.set\<close> calls in order; a later one wins.
\<close>

definition build_decode_table :: "nat list \<Rightarrow> (nat \<times> (nat \<times> nat)) list" where
  "build_decode_table lengths =
     (let encode = build_encode_table lengths
      in map (\<lambda>i. (push_bit 16 (snd (encode ! i)) OR fst (encode ! i), (i, snd (encode ! i))))
           (filter (\<lambda>i. snd (encode ! i) > 0) [0..<256]))"

definition decode_map_get :: "(nat \<times> (nat \<times> nat)) list \<Rightarrow> nat \<Rightarrow> (nat \<times> nat) option" where
  "decode_map_get decode_map key = map_of (rev decode_map) key"

text \<open>The first pass of \<open>encode\<close>: the number of bits, or the symbol without a code.\<close>

fun count_bits :: "(nat \<times> nat) list \<Rightarrow> byte list \<Rightarrow> nat \<Rightarrow> error + nat" where
  "count_bits table [] total_bits = Inr total_bits"
| "count_bits table (d # ds) total_bits =
     (let entry = table ! d
      in if snd entry = 0 then Inl UncodedSymbol
         else count_bits table ds (total_bits + snd entry))"

text \<open>
  The second pass: for \<open>b = length - 1\<close> down to \<open>0\<close>, set the bit at \<open>bit_pos\<close> when
  \<open>(code >> b) & 1\<close>. The first argument of \<open>write_code\<close> counts the bits still to write.
\<close>

fun write_code :: "nat \<Rightarrow> nat \<Rightarrow> byte list \<times> nat \<Rightarrow> byte list \<times> nat" where
  "write_code 0 code st = st"
| "write_code (Suc b) code (bits, bit_pos) =
     write_code b code
       ((if drop_bit b code AND 1 \<noteq> 0
         then bits[bit_pos div 8 := bits ! (bit_pos div 8) OR drop_bit (bit_pos mod 8) 0x80]
         else bits),
        bit_pos + 1)"

fun write_codes :: "(nat \<times> nat) list \<Rightarrow> byte list \<Rightarrow> byte list \<times> nat \<Rightarrow> byte list \<times> nat" where
  "write_codes table [] st = st"
| "write_codes table (d # ds) st =
     write_codes table ds (write_code (snd (table ! d)) (fst (table ! d)) st)"

definition tree_encode :: "nat list \<Rightarrow> byte list \<Rightarrow> error + (byte list \<times> nat)" where
  "tree_encode lengths data =
     (let table = build_encode_table lengths
      in bind_err (count_bits table data 0) (\<lambda>total_bits.
         let byte_count = (total_bits + 7) div 8;
             bits = replicate byte_count 0
         in Inr (fst (write_codes table data (bits, 0)), total_bits)))"

text \<open>
  The inner loop of \<open>decode\<close>, from \<open>len\<close> on. It returns the entry found, if any, and
  the value of \<open>length\<close> when the loop is left: 0 after a match, the last length tried
  otherwise. A byte read past the end of \<open>bits\<close> is \<open>undefined\<close> and gives the bit 0.
\<close>

function find_code ::
  "(nat \<times> (nat \<times> nat)) list \<Rightarrow> byte list \<Rightarrow> nat \<Rightarrow> nat \<Rightarrow> nat \<Rightarrow> nat \<Rightarrow> nat \<Rightarrow> nat
     \<Rightarrow> (nat \<times> nat) option \<times> nat" where
  "find_code decode_map bits bit_count max_len bit_pos len code len_seen =
     (if len \<le> max_len \<and> bit_pos + len \<le> bit_count then
        (let byte_idx = (bit_pos + len - 1) div 8;
             bit_idx = 7 - ((bit_pos + len - 1) mod 8);
             byte = (case byte_opt bits byte_idx of None \<Rightarrow> 0 | Some x \<Rightarrow> x);
             code = push_bit 1 code OR (drop_bit bit_idx byte AND 1);
             key = push_bit 16 len OR code
         in case decode_map_get decode_map key of
              Some entry \<Rightarrow> (Some entry, 0)
            | None \<Rightarrow> find_code decode_map bits bit_count max_len bit_pos (len + 1) code len)
      else (None, len_seen))"
  by pat_completeness auto
termination
  by (relation "measure (\<lambda>(decode_map, bits, bit_count, max_len, bit_pos, len, code, len_seen).
        max_len + 1 - len)") auto

declare find_code.simps [simp del]

text \<open>
  The outer loop of \<open>decode\<close>. When the inner loop does not run at all (no symbol has
  a code, so \<open>max_len\<close> is 0) nothing advances and the source loops forever: the
  result \<open>None\<close>. The output array is the list of the symbols written so far; the
  limit on the size of a typed array is left out.
\<close>

partial_function (option) decode_loop ::
  "(nat \<times> (nat \<times> nat)) list \<Rightarrow> byte list \<Rightarrow> nat \<Rightarrow> nat \<Rightarrow> nat \<Rightarrow> nat \<Rightarrow> byte list
     \<Rightarrow> (error + byte list) option" where
  "decode_loop decode_map bits bit_count expected_length max_len bit_pos output =
     (if bit_pos < bit_count \<and> length output < expected_length then
        (case find_code decode_map bits bit_count max_len bit_pos 1 0 0 of
           (Some entry, len_seen) \<Rightarrow>
             decode_loop decode_map bits bit_count expected_length max_len
               (bit_pos + snd entry) (output @ [fst entry])
         | (None, len_seen) \<Rightarrow>
             if len_seen > 0 then Some (Inl BadCode)
             else decode_loop decode_map bits bit_count expected_length max_len bit_pos output)
      else Some (if length output \<noteq> expected_length then Inl LengthMismatch else Inr output))"

declare decode_loop.simps [code]

definition tree_decode :: "nat list \<Rightarrow> byte list \<Rightarrow> nat \<Rightarrow> nat \<Rightarrow> (error + byte list) option" where
  "tree_decode lengths bits bit_count expected_length =
     (let decode_map = build_decode_table lengths;
          max_len = fold max lengths 0
      in decode_loop decode_map bits bit_count expected_length max_len 0 [])"

section \<open>Dictionary (compress/dictionary.ts)\<close>

definition MAX_STRINGS :: nat where "MAX_STRINGS = 255"

record dictionary =
  strings :: "byte list list"
  tree :: "nat list"

definition new_Dictionary :: "byte list list \<Rightarrow> nat list \<Rightarrow> error + dictionary" where
  "new_Dictionary strs t =
     (if length strs > MAX_STRINGS then Inl TooManyStrings
      else Inr \<lparr>strings = strs, tree = t\<rparr>)"

text \<open>
  The scan of the substitution list at position \<open>i\<close>: the index and the length of the
  first string that matches there.
\<close>

fun find_match :: "byte list \<Rightarrow> nat \<Rightarrow> byte list list \<Rightarrow> nat \<Rightarrow> (nat \<times> nat) option" where
  "find_match data i [] s = None"
| "find_match data i (str # strs) s =
     (if i + length str \<le> length data \<and> slice data i (i + length str) = str
      then Some (s, length str)
      else find_match data i strs (s + 1))"

text \<open>
  \<open>apply_substitution\<close>. An empty string in the list matches everywhere and advances
  by nothing, so the loop may run forever: the result \<open>None\<close>.
\<close>

partial_function (option) apply_substitution_loop ::
  "byte list \<Rightarrow> byte list list \<Rightarrow> nat \<Rightarrow> byte list \<Rightarrow> byte list option" where
  "apply_substitution_loop data strs i result =
     (if i < length data then
        (case find_match data i strs 0 of
           Some m \<Rightarrow> apply_substitution_loop data strs (i + snd m) (result @ [0, (fst m + 1) mod 256])
         | None \<Rightarrow>
             apply_substitution_loop data strs (i + 1)
               (result @ (if data ! i = 0 then [0, 0] else [data ! i])))
      else Some result)"

declare apply_substitution_loop.simps [code]

definition apply_substitution :: "byte list \<Rightarrow> byte list list \<Rightarrow> byte list option" where
  "apply_substitution data strs = apply_substitution_loop data strs 0 []"

text \<open>
  \<open>reverse_substitution\<close>. An index past the end of the list makes \<open>str\<close> undefined
  and \<open>str.length\<close> throws.
\<close>

fun reverse_substitution :: "byte list \<Rightarrow> byte list list \<Rightarrow> error + byte list" where
  "reverse_substitution [] strs = Inr []"
| "reverse_substitution [b] strs = Inr [b]"
| "reverse_substitution (b # idx # rest) strs =
     (if b = 0 then
        (if idx = 0 then bind_err (reverse_substitution rest strs) (\<lambda>r. Inr (0 # r))
         else if idx - 1 < length strs
           then bind_err (reverse_substitution rest strs) (\<lambda>r. Inr (strs ! (idx - 1) @ r))
           else Inl TypeError)
      else bind_err (reverse_substitution (idx # rest) strs) (\<lambda>r. Inr (b # r)))"

definition dict_compress :: "dictionary \<Rightarrow> byte list \<Rightarrow> (error + byte list) option" where
  "dict_compress d data =
     (case apply_substitution data (strings d) of
        None \<Rightarrow> None
      | Some substituted \<Rightarrow>
          Some (bind_err (tree_encode (tree d) substituted) (\<lambda>(bits, bit_count).
            Inr (varint_bytes (length substituted) @ varint_bytes bit_count @ bits))))"

definition dict_decompress :: "dictionary \<Rightarrow> byte list \<Rightarrow> nat \<Rightarrow> (error + byte list) option" where
  "dict_decompress d compressed original_size =
     (case decode_varint compressed 0 of
        Inl e \<Rightarrow> Some (Inl e)
      | Inr (sub_len, sl_len) \<Rightarrow>
          (case decode_varint compressed sl_len of
             Inl e \<Rightarrow> Some (Inl e)
           | Inr (bit_count, bc_len) \<Rightarrow>
               (case tree_decode (tree d) (drop (sl_len + bc_len) compressed) bit_count sub_len of
                  None \<Rightarrow> None
                | Some r \<Rightarrow> Some (bind_err r (\<lambda>substituted.
                    reverse_substitution substituted (strings d))))))"

text \<open>
  Training. \<open>ngram_counts\<close> is a \<open>Map\<close>, which iterates in insertion order: an
  association list, a new key at the end. The key of the source is the window joined
  with commas, which is the window itself.
\<close>

fun bump :: "byte list \<Rightarrow> (byte list \<times> nat) list \<Rightarrow> (byte list \<times> nat) list" where
  "bump k [] = [(k, 1)]"
| "bump k ((k', c) # m) = (if k = k' then (k', c + 1) # m else (k', c) # bump k m)"

definition count_grams :: "byte list \<Rightarrow> nat \<Rightarrow> (byte list \<times> nat) list \<Rightarrow> (byte list \<times> nat) list" where
  "count_grams sample gram_size m =
     (if length sample < gram_size then m
      else fold (\<lambda>i m. bump (slice sample i (i + gram_size)) m)
             [0..<length sample - gram_size + 1] m)"

definition count_sample :: "byte list \<Rightarrow> (byte list \<times> nat) list \<Rightarrow> (byte list \<times> nat) list" where
  "count_sample sample m = fold (count_grams sample) [4, 8, 16, 32] m"

definition candidates :: "(byte list \<times> nat) list \<Rightarrow> (byte list \<times> nat) list" where
  "candidates ngram_counts =
     take MAX_STRINGS
       (sort_key (\<lambda>(bytes, c). - int (c * length bytes))
          (filter (\<lambda>(bytes, c). c \<ge> 2) ngram_counts))"

fun substitute_all :: "byte list list \<Rightarrow> byte list list \<Rightarrow> byte list list option" where
  "substitute_all [] strs = Some []"
| "substitute_all (sample # samples) strs =
     (case apply_substitution sample strs of
        None \<Rightarrow> None
      | Some part \<Rightarrow>
          (case substitute_all samples strs of
             None \<Rightarrow> None
           | Some parts \<Rightarrow> Some (part # parts)))"

text \<open>\<open>frequencies\<close> is a \<open>Uint32Array\<close>: the increment wraps at \<open>2 ^ 32\<close>.\<close>

definition count_bytes :: "byte list \<Rightarrow> nat list \<Rightarrow> nat list" where
  "count_bytes part frequencies =
     fold (\<lambda>b f. f[b := (f ! b + 1) mod 2 ^ 32]) part frequencies"

definition train :: "byte list list \<Rightarrow> (error + dictionary) option" where
  "train samples =
     (if length samples = 0
      then Some (bind_err (from_frequencies (replicate 256 0)) (\<lambda>t. new_Dictionary [] t))
      else (let ngram_counts = fold count_sample samples [];
                strs = map fst (candidates ngram_counts)
            in case substitute_all samples strs of
                 None \<Rightarrow> None
               | Some substituted_parts \<Rightarrow>
                   (let frequencies = fold count_bytes substituted_parts (replicate 256 0)
                    in Some (bind_err (from_frequencies frequencies) (\<lambda>t. new_Dictionary strs t)))))"

section \<open>Content type sniffing (compress/content-detector.ts)\<close>

text \<open>The enum \<open>ContentType\<close> and the numeric value of each of its members.\<close>

datatype content_type = UNKNOWN | TEXT_UTF8 | JSON | BINARY

definition content_type_value :: "content_type \<Rightarrow> byte" where
  "content_type_value ct =
     (case ct of UNKNOWN \<Rightarrow> 0x00 | TEXT_UTF8 \<Rightarrow> 0x01 | JSON \<Rightarrow> 0x02 | BINARY \<Rightarrow> 0x03)"

text \<open>
  The loop of the JSON check over the first \<open>check_len\<close> bytes: \<open>valid\<close> becomes false,
  and the loop is left, at the first zero byte.
\<close>

fun scan_valid :: "byte list \<Rightarrow> bool" where
  "scan_valid [] = True"
| "scan_valid (b # bs) = (if b = 0x00 then False else scan_valid bs)"

text \<open>
  The loop of the text check over the first \<open>sample_len\<close> bytes. It returns the pair
  \<open>(printable, has_null)\<close>: a zero byte sets \<open>has_null\<close> and leaves the loop; a
  printable ASCII byte, a tab, a line feed, a carriage return or a byte from \<open>0x80\<close> on
  is counted.
\<close>

fun count_printable :: "byte list \<Rightarrow> nat \<Rightarrow> nat \<times> bool" where
  "count_printable [] printable = (printable, False)"
| "count_printable (b # bs) printable =
     (if b = 0x00 then (printable, True)
      else count_printable bs
             (if (b \<ge> 0x20 \<and> b \<le> 0x7e) \<or> b = 0x09 \<or> b = 0x0a \<or> b = 0x0d \<or> b \<ge> 0x80
              then printable + 1 else printable))"

text \<open>
  \<open>detect_content_type\<close>. The last test of the source is \<open>printable / sample_len > 0.9\<close>
  on doubles. With \<open>sample_len\<close> at most 512, a quotient that is not exactly nine
  tenths is at least \<open>1 / 5120\<close> away from it, far more than the rounding of the
  division and of the literal, and nine tenths itself rounds to the literal: the test is
  \<open>10 * printable > 9 * sample_len\<close> on integers.
\<close>

definition detect_content_type :: "byte list \<Rightarrow> content_type" where
  "detect_content_type data =
     (if length data = 0 then BINARY
      else (let first = data ! 0
            in if (first = 0x7b \<or> first = 0x5b)
                  \<and> scan_valid (take (min (length data) 64) data)
               then JSON
               else (let sample_len = min (length data) 512;
                         (printable, has_null) = count_printable (take sample_len data) 0
                     in if \<not> has_null \<and> 10 * printable > 9 * sample_len
                        then TEXT_UTF8 else BINARY)))"

section \<open>Blob pipeline (compress/pipeline.ts)\<close>

definition METHOD_NONE :: byte where "METHOD_NONE = 0x00"
definition METHOD_DEFLATE :: byte where "METHOD_DEFLATE = 0x01"
definition METHOD_DICTIONARY :: byte where "METHOD_DICTIONARY = 0x02"
definition METHOD_DICT_DEFLATE :: byte where "METHOD_DICT_DEFLATE = 0x03"

text \<open>
  The two injected functions are opaque: they return bytes or throw. \<open>compress_blob\<close>
  takes the detector and the numeric value of each content type as arguments, so that
  what is proved for every detector holds for the one of the repository: the
  \<open>compress_blob\<close> of the source is
  \<open>compress_blob detect_content_type content_type_value\<close>.
\<close>

record pipeline_options =
  opt_dictionary :: "dictionary option"
  fallback_compress :: "(byte list \<Rightarrow> error + byte list) option"
  fallback_decompress :: "(byte list \<Rightarrow> nat \<Rightarrow> error + byte list) option"

text \<open>
  The first \<open>try\<close> block: the dictionary trial. A throw of \<open>dictionary.compress\<close> is
  caught and leaves the best pair as it was.
\<close>

definition try_dictionary ::
  "pipeline_options \<Rightarrow> content_type \<Rightarrow> byte list \<Rightarrow> byte list \<times> byte \<Rightarrow> (byte list \<times> byte) option" where
  "try_dictionary opts ct plaintext best =
     (case opt_dictionary opts of
        None \<Rightarrow> Some best
      | Some d \<Rightarrow>
          if ct = TEXT_UTF8 \<or> ct = JSON then
            (case dict_compress d plaintext of
               None \<Rightarrow> None
             | Some (Inl e) \<Rightarrow> Some best
             | Some (Inr dict_compressed) \<Rightarrow>
                 Some (if length dict_compressed < length (fst best)
                       then (dict_compressed, METHOD_DICTIONARY) else best))
          else Some best)"

text \<open>
  The second \<open>try\<close> block. A throw of the first call skips the second call; a throw
  of the second call keeps what the first one set.
\<close>

definition try_fallback ::
  "pipeline_options \<Rightarrow> byte list \<Rightarrow> byte list \<times> byte \<Rightarrow> byte list \<times> byte" where
  "try_fallback opts plaintext best =
     (case fallback_compress opts of
        None \<Rightarrow> best
      | Some fc \<Rightarrow>
          (case (if snd best = METHOD_DICTIONARY \<and> opt_dictionary opts \<noteq> None
                 then bind_err (fc (fst best)) (\<lambda>dict_deflate.
                        Inr (if length dict_deflate < length (fst best)
                             then (dict_deflate, METHOD_DICT_DEFLATE) else best))
                 else Inr best) of
             Inl e \<Rightarrow> best
           | Inr best1 \<Rightarrow>
               (case fc plaintext of
                  Inl e \<Rightarrow> best1
                | Inr deflated \<Rightarrow>
                    if length deflated < length (fst best1)
                    then (deflated, METHOD_DEFLATE) else best1)))"

text \<open>The pair \<open>(best_data, best_method)\<close> after both trials and the final check.\<close>

definition negotiate ::
  "pipeline_options \<Rightarrow> content_type \<Rightarrow> byte list \<Rightarrow> (byte list \<times> byte) option" where
  "negotiate opts ct plaintext =
     (case try_dictionary opts ct plaintext (plaintext, METHOD_NONE) of
        None \<Rightarrow> None
      | Some best \<Rightarrow>
          (let best = try_fallback opts plaintext best
           in Some (if length (fst best) \<ge> length plaintext
                    then (plaintext, METHOD_NONE) else best)))"

definition blob_payload :: "byte \<Rightarrow> byte \<Rightarrow> nat \<Rightarrow> byte list \<Rightarrow> byte list" where
  "blob_payload best_method ct_byte original_size best_data =
     [best_method, ct_byte mod 256] @ varint_bytes original_size
       @ varint_bytes (length best_data) @ best_data"

definition compress_blob ::
  "(byte list \<Rightarrow> content_type) \<Rightarrow> (content_type \<Rightarrow> byte) \<Rightarrow> byte list \<Rightarrow> pipeline_options
     \<Rightarrow> byte list option" where
  "compress_blob detect ct_value plaintext opts =
     (let ct = detect plaintext
      in case negotiate opts ct plaintext of
           None \<Rightarrow> None
         | Some (best_data, best_method) \<Rightarrow>
             Some (write_envelope TAG_COMPRESSED_BLOB
                     (blob_payload best_method (ct_value ct) (length plaintext) best_data)))"

definition decompress_blob :: "byte list \<Rightarrow> pipeline_options \<Rightarrow> (error + byte list) option" where
  "decompress_blob compressed opts =
     (case read_envelope compressed of
        Inl e \<Rightarrow> Some (Inl e)
      | Inr (tag, payload) \<Rightarrow>
          if tag \<noteq> TAG_COMPRESSED_BLOB then Some (Inl BadTag)
          else (case decode_varint payload 2 of
                  Inl e \<Rightarrow> Some (Inl e)
                | Inr (original_size, os_len) \<Rightarrow>
                    (case decode_varint payload (2 + os_len) of
                       Inl e \<Rightarrow> Some (Inl e)
                     | Inr (compressed_len, cl_len) \<Rightarrow>
                         (let offset = 2 + os_len + cl_len;
                              data = slice payload offset (offset + compressed_len);
                              method = payload ! 0
                          in if method = METHOD_NONE then Some (Inr data)
                             else if method = METHOD_DEFLATE then
                               (case fallback_decompress opts of
                                  None \<Rightarrow> Some (Inl MissingCollaborator)
                                | Some fd \<Rightarrow> Some (fd data original_size))
                             else if method = METHOD_DICTIONARY then
                               (case opt_dictionary opts of
                                  None \<Rightarrow> Some (Inl MissingCollaborator)
                                | Some d \<Rightarrow> dict_decompress d data original_size)
                             else if method = METHOD_DICT_DEFLATE then
                               (case fallback_decompress opts of
                                  None \<Rightarrow> Some (Inl MissingCollaborator)
                                | Some fd \<Rightarrow>
                                    (case opt_dictionary opts of
                                       None \<Rightarrow> Some (Inl MissingCollaborator)
                                     | Some d \<Rightarrow>
                                         (case fd data 0 of
                                            Inl e \<Rightarrow> Some (Inl e)
                                          | Inr inflated \<Rightarrow> dict_decompress d inflated original_size)))
                             else Some (Inl BadMethod)))))"

section \<open>Well-formed values, wire layouts and concrete inputs\<close>

text \<open>
  An option object used as a concrete input: an external compressor that keeps the
  first byte of its input.
\<close>

definition first_byte_options :: pipeline_options where
  "first_byte_options =
     \<lparr>opt_dictionary = None, fallback_compress = Some (\<lambda>x. Inr (take 1 x)),
      fallback_decompress = None\<rparr>"

text \<open>
  An option object used as a concrete input: an external decompressor that keeps the
  first byte of its input, whatever the size it is given.
\<close>

definition first_byte_inflate_options :: pipeline_options where
  "first_byte_inflate_options =
     \<lparr>opt_dictionary = None, fallback_compress = None,
      fallback_decompress = Some (\<lambda>x n. Inr (take 1 x))\<rparr>"

text \<open>
  The bytes of a chunk reference on the wire, and the chunk references that the type
  \<open>ChunkRef\<close> describes: hashes of 32 bytes, a nonce of 24 bytes, an index that is a
  safe integer.
\<close>

definition chunk_bytes :: "chunk_ref \<Rightarrow> byte list" where
  "chunk_bytes r = varint_bytes (index r) @ hash r @ blob_address r @ nonce r"

definition valid_chunk :: "chunk_ref \<Rightarrow> bool" where
  "valid_chunk r =
     (length (hash r) = 32 \<and> length (blob_address r) = 32 \<and> length (nonce r) = 24
      \<and> index r < 2 ^ 53)"

text \<open>
  What six bytes keep of a timestamp: the number modulo \<open>2 ^ 48\<close>; \<open>NaN\<close> is written
  as six zero bytes.
\<close>

fun wrap48 :: "jsnum \<Rightarrow> jsnum" where
  "wrap48 (Num t) = Num (t mod 2 ^ 48)"
| "wrap48 NaN = Num 0"

text \<open>
  The directory nodes that the type \<open>DirNode\<close> describes, and their payload on the wire.
\<close>

definition valid_dir_node :: "dir_node \<Rightarrow> bool" where
  "valid_dir_node d =
     (length (smt_root d) = 32
      \<and> (case group_id d of None \<Rightarrow> True | Some g \<Rightarrow> length g = 32))"

definition dir_payload_bytes :: "dir_node \<Rightarrow> byte list" where
  "dir_payload_bytes d =
     smt_root d @ (case group_id d of None \<Rightarrow> [0x00] | Some g \<Rightarrow> 0x01 # g)
       @ encode_timestamp (dir_created d) @ encode_timestamp (dir_modified d)"

fun wrap_dir :: "dir_node \<Rightarrow> dir_node" where
  "wrap_dir d = d\<lparr>dir_created := wrap48 (dir_created d), dir_modified := wrap48 (dir_modified d)\<rparr>"

text \<open>
  The file nodes that the type \<open>FileNode\<close> describes (a hash of 32 bytes, a size that
  is a safe integer, an array of well-formed chunk references), and their payload on
  the wire.
\<close>

definition valid_file_node :: "file_node \<Rightarrow> bool" where
  "valid_file_node f =
     (length (content_hash f) = 32 \<and> size f < 2 ^ 53 \<and> length (chunks f) < 2 ^ 32
      \<and> list_all valid_chunk (chunks f))"

definition file_payload_bytes :: "file_node \<Rightarrow> byte list" where
  "file_payload_bytes f =
     content_hash f @ encode_timestamp (created f) @ encode_timestamp (modified f)
       @ varint_bytes (size f) @ varint_bytes (length (chunks f))
       @ concat (map chunk_bytes (chunks f))"

fun wrap_file :: "file_node \<Rightarrow> file_node" where
  "wrap_file f = f\<lparr>created := wrap48 (created f), modified := wrap48 (modified f)\<rparr>"

text \<open>
  Well-formed nodes and the two timestamps of a node, for both kinds of node.
\<close>

fun valid_node :: "node \<Rightarrow> bool" where
  "valid_node (File f) = valid_file_node f"
| "valid_node (Dir d) = valid_dir_node d"

fun node_created :: "node \<Rightarrow> jsnum" where
  "node_created (File f) = created f"
| "node_created (Dir d) = dir_created d"

fun node_modified :: "node \<Rightarrow> jsnum" where
  "node_modified (File f) = modified f"
| "node_modified (Dir d) = dir_modified d"

text \<open>
  A directory node whose creation time needs 49 bits.
\<close>

definition stamped_dir :: dir_node where
  "stamped_dir = \<lparr>smt_root = replicate 32 0, group_id = None,
                   dir_created = Num (2 ^ 48 + 5), dir_modified = Num 7\<rparr>"

text \<open>
  A chunk reference of which only \<open>k\<close> of the 88 bytes after the index were read:
  \<open>Uint8Array.slice\<close> returns the bytes that are there.
\<close>

definition cut_chunk :: "nat \<Rightarrow> chunk_ref \<Rightarrow> chunk_ref" where
  "cut_chunk k c =
     c\<lparr>hash := take k (hash c), blob_address := take (k - 32) (blob_address c),
       nonce := take (k - 64) (nonce c)\<rparr>"

text \<open>
  A file node with a single chunk, all of its bytes zero: its payload has 135 bytes.
\<close>

definition one_chunk_file :: file_node where
  "one_chunk_file =
     \<lparr>content_hash = replicate 32 0, size = 0, created = Num 0, modified = Num 0,
      chunks = [\<lparr>index = 0, hash = replicate 32 0, blob_address = replicate 32 0,
                 nonce = replicate 24 0\<rparr>]\<rparr>"

text \<open>
  A frequency table on the bytes \<open>a\<close> to \<open>q\<close> (97 to 113) with Fibonacci counts: its
  Huffman tree is a chain, the two rarest symbols at depth 16. \<open>fib_lengths\<close> is the
  length array that \<open>from_frequencies\<close> returns for it and \<open>fib_tree\<close> the tree that
  \<open>build_tree\<close> walks.
\<close>

definition fib_frequencies :: "nat list" where
  "fib_frequencies =
     replicate 97 0
     @ [1, 1, 2, 3, 5, 8, 13, 21, 34, 55, 89, 144, 233, 377, 610, 987, 1597]
     @ replicate 142 0"

definition fib_lengths :: "nat list" where
  "fib_lengths =
     replicate 97 0
     @ [15, 15, 15, 14, 13, 12, 11, 10, 9, 8, 7, 6, 5, 4, 3, 2, 1]
     @ replicate 142 0"

definition fib_tree :: tree_node where
  "fib_tree =
     Branch (Leaf 113) (Branch (Leaf 112) (Branch (Leaf 111) (Branch (Leaf 110)
    (Branch (Leaf 109) (Branch (Leaf 108) (Branch (Leaf 107) (Branch (Leaf 106)
    (Branch (Leaf 105) (Branch (Leaf 104) (Branch (Leaf 103) (Branch (Leaf 102)
    (Branch (Leaf 101) (Branch (Leaf 100) (Branch (Leaf 99)
    (Branch (Leaf 97) (Leaf 98))))))))))))))))"

text \<open>
  4180 training samples of one byte each, with the byte counts of \<open>fib_frequencies\<close>,
  and the dictionary that \<open>Dictionary.train\<close> returns for them.
\<close>

definition fib_samples :: "byte list list" where
  "fib_samples =
     replicate 1 [97] @ replicate 1 [98] @ replicate 2 [99] @ replicate 3 [100] @
     replicate 5 [101] @ replicate 8 [102] @ replicate 13 [103] @ replicate 21 [104]
     @ replicate 34 [105] @ replicate 55 [106] @ replicate 89 [107] @ replicate 144
     [108] @ replicate 233 [109] @ replicate 377 [110] @ replicate 610 [111] @
     replicate 987 [112] @ replicate 1597 [113]"

definition fib_dictionary :: dictionary where
  "fib_dictionary = \<lparr>strings = [], tree = fib_lengths\<rparr>"

text \<open>
  The encode table and the decode map of \<open>fib_lengths\<close>. The third symbol of length
  15 gets the code \<open>2 ^ 15\<close>, which has 16 bits.
\<close>

definition fib_table :: "(nat \<times> nat) list" where
  "fib_table =
     (replicate 256 (0, 0))
       [113 := (0, 1), 112 := (2, 2), 111 := (6, 3), 110 := (14, 4), 109 := (30, 5),
        108 := (62, 6), 107 := (126, 7), 106 := (254, 8), 105 := (510, 9),
        104 := (1022, 10), 103 := (2046, 11), 102 := (4094, 12), 101 := (8190, 13),
        100 := (16382, 14), 97 := (32766, 15), 98 := (32767, 15), 99 := (32768, 15)]"

definition fib_decode_map :: "(nat \<times> (nat \<times> nat)) list" where
  "fib_decode_map =
       [(1015806, (97, 15)), (1015807, (98, 15)), (1015808, (99, 15)),
        (933886, (100, 14)), (860158, (101, 13)), (790526, (102, 12)),
        (722942, (103, 11)), (656382, (104, 10)), (590334, (105, 9)),
        (524542, (106, 8)), (458878, (107, 7)), (393278, (108, 6)), (327710, (109, 5)),
        (262158, (110, 4)), (196614, (111, 3)), (131074, (112, 2)), (65536, (113, 1))]"

text \<open>
  The options that hold the trained dictionary and no external compressor.
\<close>

definition fib_options :: pipeline_options where
  "fib_options =
     \<lparr>opt_dictionary = Some fib_dictionary, fallback_compress = None, fallback_decompress = None\<rparr>"

section \<open>Properties\<close>

subsection \<open>Varints\<close>

lemma and_7f: "(b::nat) AND 0x7f = b mod 128"
  using take_bit_eq_mask[of 7 b] by (simp add: take_bit_eq_mod mask_eq_exp_minus_1)

lemma and_80_zero_iff: "((b::nat) AND 0x80 = 0) = even (b div 128)"
  using and_exp_eq_0_iff_not_bit[of b 7] by (simp add: bit_iff_odd)

lemma or_80: "(b::nat) < 128 \<Longrightarrow> b OR 0x80 = b + 128"
  using disjunctive_add_eq_or[of b 128] by (simp add: and_80_zero_iff)

lemma varint_bytes_small: "v < 128 \<Longrightarrow> varint_bytes v = [v]"
  by (simp add: varint_bytes.simps[of v] and_7f)

lemma varint_bytes_big:
  "128 \<le> v \<Longrightarrow> varint_bytes v = (v mod 128 + 128) # varint_bytes (v div 128)"
  by (simp add: varint_bytes.simps[of v] and_7f or_80 Let_def)

lemma varint_bytes_length: "0 < k \<Longrightarrow> v < 2 ^ (7 * k) \<Longrightarrow> length (varint_bytes v) \<le> k"
proof (induction k arbitrary: v)
  case 0
  then show ?case by simp
next
  case (Suc k)
  show ?case
  proof (cases "v < 128")
    case True
    then show ?thesis by (simp add: varint_bytes_small)
  next
    case False
    then have big: "128 \<le> v" by simp
    have "k \<noteq> 0"
    proof
      assume "k = 0"
      with Suc.prems have "v < 128" by simp
      with big show False by simp
    qed
    then have k: "0 < k" by simp
    have "v < 2 ^ 7 * 2 ^ (7 * k)"
      using Suc.prems(2) by (simp add: power_add)
    then have "v div 128 < 2 ^ (7 * k)"
      by (simp add: less_mult_imp_div_less mult.commute)
    with Suc.IH[OF k] have "length (varint_bytes (v div 128)) \<le> k" by simp
    then show ?thesis using big by (simp add: varint_bytes_big)
  qed
qed

lemma decode_varint_loop_encode:
  "shift + 7 * length (varint_bytes n) \<le> 56 \<Longrightarrow>
   decode_varint_loop (pre @ varint_bytes n @ post) offset v shift (length pre)
     = Inr (v + n * 2 ^ shift, length pre + length (varint_bytes n) - offset)"
proof (induction n arbitrary: pre v shift rule: varint_bytes.induct)
  case (1 n)
  show ?case
  proof (cases "n < 128")
    case True
    then show ?thesis
      by (simp add: varint_bytes_small decode_varint_loop.simps[of _ _ _ _ "length pre"]
          and_7f and_80_zero_iff)
  next
    case False
    then have big: "128 \<le> n" by simp
    let ?b = "n mod 128 + 128"
    have vb: "varint_bytes n = ?b # varint_bytes (n div 128)"
      using big by (rule varint_bytes_big)
    have len: "shift + 7 + 7 * length (varint_bytes (n div 128)) \<le> 56"
      using "1.prems" by (simp add: vb)
    have pos: "0 < length (varint_bytes (n div 128))"
      by (subst varint_bytes.simps) (simp add: Let_def)
    have sh: "shift + 7 \<le> 49" using len pos by linarith
    have d: "0 < n div 128" using big by (simp add: div_greater_zero_iff)
    have bodd: "\<not> even (?b div 128)" by (simp add: div_add1_eq)
    have ih: "decode_varint_loop ((pre @ [?b]) @ varint_bytes (n div 128) @ post) offset
                 (v + (n mod 128) * 2 ^ shift) (shift + 7) (length (pre @ [?b]))
              = Inr (v + (n mod 128) * 2 ^ shift + (n div 128) * 2 ^ (shift + 7),
                     length (pre @ [?b]) + length (varint_bytes (n div 128)) - offset)"
      by (rule "1.IH"[OF refl refl d]) (use len in simp)
    have val: "v + (n mod 128) * 2 ^ shift + (n div 128) * 2 ^ (shift + 7) = v + n * 2 ^ shift"
    proof -
      have "(n mod 128) * 2 ^ shift + (n div 128) * 2 ^ (shift + 7)
            = (n mod 128) * 2 ^ shift + (n div 128 * 128) * 2 ^ shift"
        by (simp add: power_add)
      also have "\<dots> = (n mod 128 + n div 128 * 128) * 2 ^ shift"
        by (simp only: distrib_right)
      also have "\<dots> = n * 2 ^ shift" by simp
      finally show ?thesis by simp
    qed
    show ?thesis
      apply (subst decode_varint_loop.simps)
      using ih sh bodd by (simp add: vb and_7f and_80_zero_iff Let_def val)
  qed
qed

lemma decode_varint_encode:
  "length (varint_bytes n) \<le> 8 \<Longrightarrow>
   decode_varint (pre @ varint_bytes n @ post) (length pre) = Inr (n, length (varint_bytes n))"
  unfolding decode_varint_def
  using decode_varint_loop_encode[of 0 n pre post "length pre" 0] by simp

text \<open>
  C5. For every natural number \<open>n\<close> up to \<open>2 ^ 48\<close>, \<open>encode_varint\<close> succeeds, and
  \<open>decode_varint\<close> at offset 0 of its bytes returns \<open>n\<close> together with the number of
  bytes that \<open>encode_varint\<close> wrote.
\<close>

theorem varint_roundtrip:
  "n \<le> 2 ^ 48 \<Longrightarrow>
   \<exists>bs. encode_varint (int n) = Inr bs \<and> decode_varint bs 0 = Inr (n, length bs)"
proof -
  assume "n \<le> 2 ^ 48"
  then have "n < 2 ^ (7 * 8)"
    by (rule le_less_trans) simp
  then have "length (varint_bytes n) \<le> 8"
    by (intro varint_bytes_length) simp_all
  then have "decode_varint ([] @ varint_bytes n @ []) (length ([]::nat list)) = Inr (n, length (varint_bytes n))"
    by (rule decode_varint_encode)
  then show ?thesis by (simp add: encode_varint_def)
qed

theorem varint_roundtrip_witness:
  "(2::nat) ^ 48 \<le> 2 ^ 48 \<and>
   (\<exists>bs. encode_varint (int (2 ^ 48)) = Inr bs \<and> decode_varint bs 0 = Inr (2 ^ 48, length bs))"
  using varint_roundtrip[of "2 ^ 48"] by simp

text \<open>
  C6. The guard \<open>shift > 49\<close> is tested after the shift has been advanced, and the
  shift is where the next byte starts: an eighth byte is read at shift 49. Each input
  below has eight bytes, so 56 payload bits are consumed; the values are \<open>2 ^ 49\<close>, which
  needs 50 bits, and \<open>2 ^ 53\<close>, which is past the largest safe integer that the
  comment on the guard names. Both decode without error, where the claim asks for
  \<open>TooLarge\<close>.
\<close>

theorem decode_varint_eight_bytes:
  "decode_varint [0x80, 0x80, 0x80, 0x80, 0x80, 0x80, 0x80, 0x01] 0 = Inr (2 ^ 49, 8)
   \<and> decode_varint [0x80, 0x80, 0x80, 0x80, 0x80, 0x80, 0x80, 0x10] 0 = Inr (2 ^ 53, 8)"
  by (simp add: decode_varint_def decode_varint_loop.simps)

subsection \<open>Checksum and envelope\<close>

lemma unat_and_ff: "unat ((w :: 32 word) AND 0xff) = unat w mod 256"
proof -
  have "(w AND 0xff) = take_bit 8 w"
    by (simp add: take_bit_eq_mask mask_eq_exp_minus_1)
  then have "unat (w AND 0xff) = take_bit 8 (unat w)"
    by (simp only: unsigned_take_bit_eq)
  then show ?thesis
    by (simp only: take_bit_eq_mod) simp
qed

lemma unat_shift_ff: "unat (drop_bit n (w :: 32 word) AND 0xff) = unat w div 2 ^ n mod 256"
proof -
  have "unat (drop_bit n w) = drop_bit n (unat w)"
    by (rule unat_drop_bit_eq)
  then have "unat (drop_bit n w) = unat w div 2 ^ n"
    by (simp only: drop_bit_eq_div)
  then show ?thesis
    by (simp only: unat_and_ff)
qed

lemma split_bytes:
  fixes n :: nat
  assumes "n < 4294967296"
  shows "n div 16777216 mod 256 * 16777216 + n div 65536 mod 256 * 65536
         + n div 256 mod 256 * 256 + n mod 256 = n"
proof -
  have a: "n div 16777216 mod 256 = n div 16777216"
    using assms by (simp add: less_mult_imp_div_less)
  have b: "n div 65536 mod 256 * 65536 + n mod 65536 = n mod 16777216"
    using mod_mult2_eq[of n 65536 256] by simp
  have c: "n div 256 mod 256 * 256 + n mod 256 = n mod 65536"
    using mod_mult2_eq[of n 256 256] by simp
  have "n div 16777216 mod 256 * 16777216 + n div 65536 mod 256 * 65536
         + n div 256 mod 256 * 256 + n mod 256
        = n div 16777216 * 16777216 + (n div 65536 mod 256 * 65536
         + (n div 256 mod 256 * 256 + n mod 256))"
    by (simp only: a add.assoc)
  also have "\<dots> = n div 16777216 * 16777216 + (n div 65536 mod 256 * 65536 + n mod 65536)"
    by (simp only: c)
  also have "\<dots> = n div 16777216 * 16777216 + n mod 16777216"
    by (simp only: b)
  also have "\<dots> = n"
    by (rule div_mult_mod_eq)
  finally show ?thesis .
qed

lemma crc32_bytes_nat:
  "crc32_bytes d =
     [unat (crc32 d) div 16777216 mod 256, unat (crc32 d) div 65536 mod 256,
      unat (crc32 d) div 256 mod 256, unat (crc32 d) mod 256]"
  unfolding crc32_bytes_def Let_def
  using unat_shift_ff[of 24 "crc32 d"] unat_shift_ff[of 16 "crc32 d"]
    unat_shift_ff[of 8 "crc32 d"] unat_and_ff[of "crc32 d"]
  by simp

lemma getUint32_crc32_bytes:
  "getUint32 (xs @ crc32_bytes d) (length xs) = unat (crc32 d)"
proof -
  have "unat (crc32 d) < 4294967296"
    using unsigned_less[of "crc32 d", where 'a=nat] by simp
  then show ?thesis
    using split_bytes[of "unat (crc32 d)"]
    by (simp add: getUint32_def crc32_bytes_nat nth_append)
qed

lemma verify_crc32_write: "verify_crc32 (xs @ crc32_bytes xs)"
  using getUint32_crc32_bytes[of xs xs]
  by (simp add: verify_crc32_def crc32_bytes_def Let_def)

lemma read_write_envelope:
  "read_envelope (write_envelope tag payload) = Inr (tag mod 256, payload)"
proof -
  let ?h = "[0x5a, 0x4b, 0x01, tag mod 256] @ payload"
  have v: "verify_crc32 (?h @ crc32_bytes ?h)" by (rule verify_crc32_write)
  have l: "length (crc32_bytes ?h) = 4" by (simp add: crc32_bytes_def Let_def)
  show ?thesis
    using v l
    by (simp add: read_envelope_def write_envelope_def Let_def slice_def
        ENVELOPE_HEADER_SIZE_def ENVELOPE_FOOTER_SIZE_def)
qed

subsection \<open>Negotiation in the blob pipeline\<close>

lemma find_match_pos:
  "list_all (\<lambda>s. s \<noteq> []) strs \<Longrightarrow> find_match data i strs s = Some m \<Longrightarrow> 0 < snd m"
  by (induction strs arbitrary: s) (auto split: if_splits)

lemma apply_substitution_loop_total:
  assumes "list_all (\<lambda>s. s \<noteq> []) strs"
  shows "\<exists>r. apply_substitution_loop data strs i result = Some r"
proof (induction "length data - i" arbitrary: i result rule: less_induct)
  case less
  show ?case
  proof (cases "i < length data")
    case False
    then show ?thesis by (subst apply_substitution_loop.simps) simp
  next
    case True
    show ?thesis
    proof (cases "find_match data i strs 0")
      case None
      have "length data - (i + 1) < length data - i" using True by simp
      from less[OF this] obtain r where
        "apply_substitution_loop data strs (i + 1)
           (result @ (if data ! i = 0 then [0, 0] else [data ! i])) = Some r"
        by blast
      then show ?thesis using True None
        by (subst apply_substitution_loop.simps) simp
    next
      case (Some m)
      then have "0 < snd m" using assms by (rule find_match_pos[rotated])
      then have "length data - (i + snd m) < length data - i" using True by simp
      from less[OF this] obtain r where
        "apply_substitution_loop data strs (i + snd m) (result @ [0, (fst m + 1) mod 256]) = Some r"
        by blast
      then show ?thesis using True Some
        by (subst apply_substitution_loop.simps) simp
    qed
  qed
qed

lemma dict_compress_total:
  "list_all (\<lambda>s. s \<noteq> []) (strings d) \<Longrightarrow> dict_compress d data \<noteq> None"
  using apply_substitution_loop_total[of "strings d" data 0 "[]"]
  by (auto simp: dict_compress_def apply_substitution_def)

lemma try_fallback_cases:
  "try_fallback opts plaintext best = best
   \<or> (\<exists>fc out. fallback_compress opts = Some fc \<and> length out < length (fst best)
        \<and> try_fallback opts plaintext best = (out, METHOD_DICT_DEFLATE)
        \<and> snd best = METHOD_DICTIONARY)
   \<or> (\<exists>fc out. fallback_compress opts = Some fc \<and> fc plaintext = Inr out
        \<and> length out < length (fst best)
        \<and> try_fallback opts plaintext best = (out, METHOD_DEFLATE))"
  by (auto simp: try_fallback_def bind_err_def split: option.splits sum.splits if_splits)

lemma try_dictionary_cases:
  "try_dictionary opts ct plaintext best = Some best' \<Longrightarrow>
   best' = best
   \<or> (\<exists>d out. opt_dictionary opts = Some d \<and> (ct = TEXT_UTF8 \<or> ct = JSON)
        \<and> dict_compress d plaintext = Some (Inr out)
        \<and> length out < length (fst best) \<and> best' = (out, METHOD_DICTIONARY))"
  by (auto simp: try_dictionary_def split: option.splits sum.splits if_splits)

lemma negotiate_smaller:
  assumes "negotiate opts ct plaintext = Some (best_data, best_method)"
  shows "best_method \<noteq> METHOD_NONE \<longrightarrow> length best_data < length plaintext"
  using assms
  by (auto simp: negotiate_def Let_def split: option.splits if_splits)

lemma negotiate_none:
  assumes "negotiate opts ct plaintext = Some (best_data, best_method)"
    and d: "\<And>d out. opt_dictionary opts = Some d \<Longrightarrow> ct = TEXT_UTF8 \<or> ct = JSON \<Longrightarrow>
              dict_compress d plaintext = Some (Inr out) \<Longrightarrow> length plaintext \<le> length out"
    and f: "\<And>fc out. fallback_compress opts = Some fc \<Longrightarrow> fc plaintext = Inr out \<Longrightarrow>
              length plaintext \<le> length out"
  shows "best_method = METHOD_NONE \<and> best_data = plaintext"
proof -
  from assms(1) obtain best where
    td: "try_dictionary opts ct plaintext (plaintext, METHOD_NONE) = Some best"
    and res: "(best_data, best_method) =
      (if length (fst (try_fallback opts plaintext best)) \<ge> length plaintext
       then (plaintext, METHOD_NONE) else try_fallback opts plaintext best)"
    by (auto simp: negotiate_def Let_def split: option.splits)
  have b: "best = (plaintext, METHOD_NONE)"
    using try_dictionary_cases[OF td] d by fastforce
  have "length (fst (try_fallback opts plaintext best)) \<ge> length plaintext"
    using try_fallback_cases[of opts plaintext best] f
    by (auto simp: b METHOD_NONE_def METHOD_DICTIONARY_def)
  then show ?thesis using res by simp
qed

lemma compress_blob_payload:
  assumes "compress_blob detect ct_value plaintext opts = Some env"
  shows "\<exists>best_data best_method.
           env = write_envelope TAG_COMPRESSED_BLOB
                   ([best_method, ct_value (detect plaintext) mod 256]
                    @ varint_bytes (length plaintext)
                    @ varint_bytes (length best_data) @ best_data)
           \<and> (best_method \<noteq> METHOD_NONE \<longrightarrow> length best_data < length plaintext)
           \<and> ((\<forall>d out. opt_dictionary opts = Some d
                    \<and> (detect plaintext = TEXT_UTF8 \<or> detect plaintext = JSON)
                    \<and> dict_compress d plaintext = Some (Inr out)
                   \<longrightarrow> length plaintext \<le> length out)
               \<and> (\<forall>fc out. fallback_compress opts = Some fc \<and> fc plaintext = Inr out
                   \<longrightarrow> length plaintext \<le> length out)
              \<longrightarrow> best_method = METHOD_NONE \<and> best_data = plaintext)"
proof -
  from assms obtain best_data best_method where
    n: "negotiate opts (detect plaintext) plaintext = Some (best_data, best_method)"
    and e: "env = write_envelope TAG_COMPRESSED_BLOB
              (blob_payload best_method (ct_value (detect plaintext)) (length plaintext) best_data)"
    by (auto simp: compress_blob_def Let_def split: option.splits prod.splits)
  have 1: "env = write_envelope TAG_COMPRESSED_BLOB
                   ([best_method, ct_value (detect plaintext) mod 256]
                    @ varint_bytes (length plaintext)
                    @ varint_bytes (length best_data) @ best_data)"
    using e by (simp add: blob_payload_def)
  have 2: "best_method \<noteq> METHOD_NONE \<longrightarrow> length best_data < length plaintext"
    by (rule negotiate_smaller[OF n])
  have 3: "(\<forall>d out. opt_dictionary opts = Some d
                    \<and> (detect plaintext = TEXT_UTF8 \<or> detect plaintext = JSON)
                    \<and> dict_compress d plaintext = Some (Inr out)
                   \<longrightarrow> length plaintext \<le> length out)
               \<and> (\<forall>fc out. fallback_compress opts = Some fc \<and> fc plaintext = Inr out
                   \<longrightarrow> length plaintext \<le> length out)
              \<longrightarrow> best_method = METHOD_NONE \<and> best_data = plaintext"
    using negotiate_none[OF n] by blast
  from 1 2 3 show ?thesis by blast
qed

lemma compress_blob_returns:
  assumes "case opt_dictionary opts of None \<Rightarrow> True | Some d \<Rightarrow> list_all (\<lambda>s. s \<noteq> []) (strings d)"
  shows "compress_blob detect ct_value plaintext opts \<noteq> None"
proof (cases "opt_dictionary opts")
  case None
  then show ?thesis
    by (simp add: compress_blob_def negotiate_def try_dictionary_def Let_def split: prod.splits)
next
  case (Some d)
  then have "dict_compress d plaintext \<noteq> None"
    using assms by (simp add: dict_compress_total)
  then show ?thesis using Some
    by (auto simp: compress_blob_def negotiate_def try_dictionary_def Let_def
        split: option.splits sum.splits prod.splits)
qed

text \<open>
  C4. \<open>compress_blob\<close> returns an envelope whenever the dictionary, if there is one,
  has no empty string (an empty string makes the substitution loop run forever). The
  payload of every envelope it returns is the method byte, the content type, the
  plaintext length, the length of the stored data and the data. A method other than
  none comes with stored data strictly shorter than the plaintext. When neither the
  dictionary trial nor the external trial on the plaintext gave a strictly shorter
  output (the external trial on the dictionary output runs only after a shorter
  dictionary output), the method is none and the data is the plaintext.
\<close>

theorem compress_blob_never_larger:
  "((case opt_dictionary opts of
       None \<Rightarrow> True
     | Some d \<Rightarrow> list_all (\<lambda>s. s \<noteq> []) (strings d))
    \<longrightarrow> (\<exists>env. compress_blob detect ct_value plaintext opts = Some env))
   \<and> (\<forall>env. compress_blob detect ct_value plaintext opts = Some env \<longrightarrow>
        (\<exists>best_data best_method.
           env = write_envelope TAG_COMPRESSED_BLOB
                   ([best_method, ct_value (detect plaintext) mod 256]
                    @ varint_bytes (length plaintext)
                    @ varint_bytes (length best_data) @ best_data)
           \<and> (best_method \<noteq> METHOD_NONE \<longrightarrow> length best_data < length plaintext)
           \<and> ((\<forall>d out. opt_dictionary opts = Some d
                    \<and> (detect plaintext = TEXT_UTF8 \<or> detect plaintext = JSON)
                    \<and> dict_compress d plaintext = Some (Inr out)
                   \<longrightarrow> length plaintext \<le> length out)
               \<and> (\<forall>fc out. fallback_compress opts = Some fc \<and> fc plaintext = Inr out
                   \<longrightarrow> length plaintext \<le> length out)
              \<longrightarrow> best_method = METHOD_NONE \<and> best_data = plaintext)))"
proof (intro conjI impI allI)
  assume "case opt_dictionary opts of
            None \<Rightarrow> True
          | Some d \<Rightarrow> list_all (\<lambda>s. s \<noteq> []) (strings d)"
  then have "compress_blob detect ct_value plaintext opts \<noteq> None"
    by (rule compress_blob_returns)
  then show "\<exists>env. compress_blob detect ct_value plaintext opts = Some env"
    by auto
next
  fix env
  assume "compress_blob detect ct_value plaintext opts = Some env"
  then show "\<exists>best_data best_method.
           env = write_envelope TAG_COMPRESSED_BLOB
                   ([best_method, ct_value (detect plaintext) mod 256]
                    @ varint_bytes (length plaintext)
                    @ varint_bytes (length best_data) @ best_data)
           \<and> (best_method \<noteq> METHOD_NONE \<longrightarrow> length best_data < length plaintext)
           \<and> ((\<forall>d out. opt_dictionary opts = Some d
                    \<and> (detect plaintext = TEXT_UTF8 \<or> detect plaintext = JSON)
                    \<and> dict_compress d plaintext = Some (Inr out)
                   \<longrightarrow> length plaintext \<le> length out)
               \<and> (\<forall>fc out. fallback_compress opts = Some fc \<and> fc plaintext = Inr out
                   \<longrightarrow> length plaintext \<le> length out)
              \<longrightarrow> best_method = METHOD_NONE \<and> best_data = plaintext)"
    by (rule compress_blob_payload)
qed

subsection \<open>Envelopes of the blob pipeline\<close>

theorem compress_blob_never_larger_witness:
  "(case opt_dictionary first_byte_options of
      None \<Rightarrow> True
    | Some d \<Rightarrow> list_all (\<lambda>s. s \<noteq> []) (strings d))
   \<and> compress_blob detect_content_type (\<lambda>c. 0) [1, 2, 3] first_byte_options
     = Some (write_envelope TAG_COMPRESSED_BLOB [METHOD_DEFLATE, 0, 3, 1, 1])
   \<and> (\<exists>best_data best_method.
         write_envelope TAG_COMPRESSED_BLOB [METHOD_DEFLATE, 0, 3, 1, 1]
           = write_envelope TAG_COMPRESSED_BLOB
               ([best_method, 0 mod 256] @ varint_bytes (length [1, 2, 3::nat])
                @ varint_bytes (length best_data) @ best_data)
         \<and> (best_method \<noteq> METHOD_NONE \<longrightarrow> length best_data < length [1, 2, 3::nat]))"
proof -
  have s: "case opt_dictionary first_byte_options of
             None \<Rightarrow> True
           | Some d \<Rightarrow> list_all (\<lambda>s. s \<noteq> []) (strings d)"
    by (simp add: first_byte_options_def)
  have h: "compress_blob detect_content_type (\<lambda>c. 0) [1, 2, 3] first_byte_options
             = Some (write_envelope TAG_COMPRESSED_BLOB [METHOD_DEFLATE, 0, 3, 1, 1])"
    by (simp add: compress_blob_def negotiate_def try_dictionary_def try_fallback_def
        first_byte_options_def blob_payload_def Let_def METHOD_NONE_def METHOD_DEFLATE_def
        METHOD_DICTIONARY_def varint_bytes_small numeral_3_eq_3)
  note t = compress_blob_never_larger[of first_byte_options detect_content_type "\<lambda>c. 0"
      "[1, 2, 3]"]
  from t h obtain best_data best_method where
    "write_envelope TAG_COMPRESSED_BLOB [METHOD_DEFLATE, 0, 3, 1, 1]
       = write_envelope TAG_COMPRESSED_BLOB
           ([best_method, 0 mod 256] @ varint_bytes (length [1, 2, 3::nat])
            @ varint_bytes (length best_data) @ best_data)"
    "best_method \<noteq> METHOD_NONE \<longrightarrow> length best_data < length [1, 2, 3::nat]"
    by blast
  then show ?thesis using s h by blast
qed

lemma decode_varint_single:
  "off < length buf \<Longrightarrow> buf ! off < 128 \<Longrightarrow> decode_varint buf off = Inr (buf ! off, 1)"
  by (simp add: decode_varint_def decode_varint_loop.simps[of buf off 0 0 off] and_7f
      and_80_zero_iff)

lemma dict_decompress_ignores_size:
  "dict_decompress d compressed n = dict_decompress d compressed m"
  by (simp add: dict_decompress_def)

text \<open>
  C9, as amended. For an envelope that \<open>decompress_blob\<close> accepts, let \<open>data\<close> be the
  \<open>compressed_len\<close> bytes stored after the two varints, or the rest of the payload when
  it is shorter. Method none returns \<open>data\<close>; method deflate returns whatever the
  injected decompressor returns for \<open>data\<close> and \<open>original_size\<close>; method dictionary
  returns the result of \<open>Dictionary.decompress\<close> on \<open>data\<close>, and method
  dictionary+deflate the result of \<open>Dictionary.decompress\<close> on what the injected
  decompressor returns for \<open>data\<close> and 0, where \<open>Dictionary.decompress\<close> does not
  depend on its size argument. On no path is the length of the result compared with
  \<open>original_size\<close>.
\<close>

theorem decompress_blob_result_by_method:
  assumes "read_envelope buf = Inr (TAG_COMPRESSED_BLOB, payload)"
    and "decode_varint payload 2 = Inr (original_size, os_len)"
    and "decode_varint payload (2 + os_len) = Inr (compressed_len, cl_len)"
    and "data = slice payload (2 + os_len + cl_len) (2 + os_len + cl_len + compressed_len)"
  shows "(payload ! 0 = METHOD_NONE \<longrightarrow> decompress_blob buf opts = Some (Inr data))
         \<and> (payload ! 0 = METHOD_DEFLATE \<longrightarrow>
              (\<forall>fd. fallback_decompress opts = Some fd \<longrightarrow>
                 decompress_blob buf opts = Some (fd data original_size)))
         \<and> (payload ! 0 = METHOD_DICTIONARY \<longrightarrow>
              (\<forall>d. opt_dictionary opts = Some d \<longrightarrow>
                 decompress_blob buf opts = dict_decompress d data original_size
                 \<and> (\<forall>n. dict_decompress d data n = dict_decompress d data original_size)))
         \<and> (payload ! 0 = METHOD_DICT_DEFLATE \<longrightarrow>
              (\<forall>fd d. fallback_decompress opts = Some fd \<and> opt_dictionary opts = Some d \<longrightarrow>
                 decompress_blob buf opts
                   = (case fd data 0 of
                        Inl e \<Rightarrow> Some (Inl e)
                      | Inr inflated \<Rightarrow> dict_decompress d inflated original_size)
                 \<and> (\<forall>inflated n. dict_decompress d inflated n
                                     = dict_decompress d inflated original_size)))
         \<and> length data = min compressed_len (length payload - (2 + os_len + cl_len))"
proof (intro conjI impI allI)
  assume "payload ! 0 = METHOD_NONE"
  then show "decompress_blob buf opts = Some (Inr data)"
    using assms by (simp add: decompress_blob_def Let_def)
next
  fix fd
  assume "payload ! 0 = METHOD_DEFLATE" "fallback_decompress opts = Some fd"
  then show "decompress_blob buf opts = Some (fd data original_size)"
    using assms by (simp add: decompress_blob_def Let_def METHOD_DEFLATE_def METHOD_NONE_def)
next
  fix d
  assume "payload ! 0 = METHOD_DICTIONARY" "opt_dictionary opts = Some d"
  then show "decompress_blob buf opts = dict_decompress d data original_size"
    using assms
    by (simp add: decompress_blob_def Let_def METHOD_DEFLATE_def METHOD_NONE_def
        METHOD_DICTIONARY_def)
next
  fix d n
  show "dict_decompress d data n = dict_decompress d data original_size"
    by (rule dict_decompress_ignores_size)
next
  fix fd d
  assume "payload ! 0 = METHOD_DICT_DEFLATE"
    "fallback_decompress opts = Some fd \<and> opt_dictionary opts = Some d"
  then show "decompress_blob buf opts
               = (case fd data 0 of
                    Inl e \<Rightarrow> Some (Inl e)
                  | Inr inflated \<Rightarrow> dict_decompress d inflated original_size)"
    using assms
    by (simp add: decompress_blob_def Let_def METHOD_DEFLATE_def METHOD_NONE_def
        METHOD_DICTIONARY_def METHOD_DICT_DEFLATE_def)
next
  fix d inflated n
  show "dict_decompress d inflated n = dict_decompress d inflated original_size"
    by (rule dict_decompress_ignores_size)
next
  show "length data = min compressed_len (length payload - (2 + os_len + cl_len))"
    using assms by (simp add: slice_def)
qed

theorem decompress_blob_result_by_method_witness:
  "read_envelope (write_envelope 0x10 [0x01, 0x00, 0x05, 0x03, 1, 2, 3])
     = Inr (TAG_COMPRESSED_BLOB, [0x01, 0x00, 0x05, 0x03, 1, 2, 3])
   \<and> decode_varint [0x01, 0x00, 0x05, 0x03, 1, 2, 3] 2 = Inr (5, 1)
   \<and> decode_varint [0x01, 0x00, 0x05, 0x03, 1, 2, 3] (2 + 1) = Inr (3, 1)
   \<and> [1, 2, 3] = slice [0x01, 0x00, 0x05, 0x03, 1, 2, 3] (2 + 1 + 1) (2 + 1 + 1 + 3)
   \<and> [0x01, 0x00, 0x05, 0x03, 1, 2, 3::nat] ! 0 = METHOD_DEFLATE
   \<and> fallback_decompress first_byte_inflate_options = Some (\<lambda>x n. Inr (take 1 x))
   \<and> decompress_blob (write_envelope 0x10 [0x01, 0x00, 0x05, 0x03, 1, 2, 3])
       first_byte_inflate_options
     = Some (Inr [1])"
proof -
  have 1: "read_envelope (write_envelope 0x10 [0x01, 0x00, 0x05, 0x03, 1, 2, 3])
     = Inr (TAG_COMPRESSED_BLOB, [0x01, 0x00, 0x05, 0x03, 1, 2, 3])"
    by (simp add: read_write_envelope TAG_COMPRESSED_BLOB_def)
  have 2: "decode_varint [0x01, 0x00, 0x05, 0x03, 1, 2, 3] 2 = Inr (5, 1)"
    by (simp add: decode_varint_single)
  have 3: "decode_varint [0x01, 0x00, 0x05, 0x03, 1, 2, 3] (2 + 1) = Inr (3, 1)"
    by (simp add: decode_varint_single)
  have 4: "[1, 2, 3] = slice [0x01, 0x00, 0x05, 0x03, 1, 2, 3::nat] (2 + 1 + 1) (2 + 1 + 1 + 3)"
    by (simp add: slice_def)
  have 5: "[0x01, 0x00, 0x05, 0x03, 1, 2, 3::nat] ! 0 = METHOD_DEFLATE"
    by (simp add: METHOD_DEFLATE_def)
  have 6: "fallback_decompress first_byte_inflate_options = Some (\<lambda>x n. Inr (take 1 x))"
    by (simp add: first_byte_inflate_options_def)
  have "decompress_blob (write_envelope 0x10 [0x01, 0x00, 0x05, 0x03, 1, 2, 3])
          first_byte_inflate_options
        = Some ((\<lambda>x n. Inr (take 1 x)) [1, 2, 3::nat] (5::nat))"
    using decompress_blob_result_by_method[OF 1 2 3 4, of first_byte_inflate_options] 5 6
    by blast
  then have 7: "decompress_blob (write_envelope 0x10 [0x01, 0x00, 0x05, 0x03, 1, 2, 3])
                  first_byte_inflate_options
                = Some (Inr [1])"
    by simp
  show ?thesis
    by (intro conjI 1 2 3 4 5 6 7)
qed

text \<open>
  C9, as stated, fails: this envelope records \<open>original_size = 5\<close>, stores three bytes
  under method none, and \<open>decompress_blob\<close> returns the three bytes without an error.
\<close>

theorem decompress_blob_length_mismatch_silent:
  "decode_varint [0x00, 0x00, 0x05, 0x03, 1, 2, 3] 2 = Inr (5, 1)
   \<and> decompress_blob (write_envelope 0x10 [0x00, 0x00, 0x05, 0x03, 1, 2, 3])
       \<lparr>opt_dictionary = None, fallback_compress = None, fallback_decompress = None\<rparr>
     = Some (Inr [1, 2, 3])"
  by (simp add: decompress_blob_def read_write_envelope TAG_COMPRESSED_BLOB_def
      decode_varint_single slice_def Let_def METHOD_NONE_def)

subsection \<open>Buffers, chunk references and timestamps\<close>

lemma set_bytes_zero:
  "length src \<le> n \<Longrightarrow>
   set_bytes (pre @ replicate n 0) src (length pre) = Inr (pre @ src @ replicate (n - length src) 0)"
  by (simp add: set_bytes_def replicate_add[symmetric] del: replicate_add)

lemma set_bytes_zero':
  "off = length pre \<Longrightarrow> n = length src + k \<Longrightarrow>
   set_bytes (pre @ replicate n 0) src off = Inr ((pre @ src) @ replicate k 0)"
  using set_bytes_zero[of src n pre] by simp

lemma encode_chunk_ref_valid:
  assumes "valid_chunk r"
  shows "encode_chunk_ref r = Inr (chunk_bytes r)"
proof -
  let ?v = "varint_bytes (index r)"
  have h: "length (hash r) = 32" "length (blob_address r) = 32" "length (nonce r) = 24"
    using assms by (simp_all add: valid_chunk_def)
  have 1: "set_bytes (replicate (length ?v + 32 + 32 + 24) 0) ?v 0
           = Inr (([] @ ?v) @ replicate 88 0)"
    using set_bytes_zero'[of 0 "[]" "length ?v + 32 + 32 + 24" ?v 88] by simp
  have 2: "set_bytes (([] @ ?v) @ replicate 88 0) (hash r) (0 + length ?v)
           = Inr ((([] @ ?v) @ hash r) @ replicate 56 0)"
    by (rule set_bytes_zero') (simp_all add: h)
  have 3: "set_bytes ((([] @ ?v) @ hash r) @ replicate 56 0) (blob_address r) (0 + length ?v + 32)
           = Inr (((([] @ ?v) @ hash r) @ blob_address r) @ replicate 24 0)"
    by (rule set_bytes_zero') (simp_all add: h)
  have 4: "set_bytes (((([] @ ?v) @ hash r) @ blob_address r) @ replicate 24 0) (nonce r)
             (0 + length ?v + 32 + 32)
           = Inr ((((([] @ ?v) @ hash r) @ blob_address r) @ nonce r) @ replicate 0 0)"
    by (rule set_bytes_zero') (simp_all add: h)
  have "encode_chunk_ref r = Inr ((((([] @ ?v) @ hash r) @ blob_address r) @ nonce r) @ replicate 0 0)"
    unfolding encode_chunk_ref_def Let_def HASH_SIZE_def NONCE_SIZE_def bind_err_def
    by (simp only: 1 2 3 4 sum.case)
  then show ?thesis by (simp add: chunk_bytes_def)
qed

lemma encode_chunks_valid:
  "list_all valid_chunk cs \<Longrightarrow> encode_chunks cs = Inr (map chunk_bytes cs)"
  by (induction cs) (simp_all add: encode_chunk_ref_valid bind_err_def)

lemma set_chunk_bufs_zero:
  "set_chunk_bufs (pre @ replicate (sum_list (map length bs) + k) 0) bs (length pre)
   = Inr (pre @ concat bs @ replicate k 0)"
proof (induction bs arbitrary: pre)
  case Nil
  then show ?case by simp
next
  case (Cons b bs)
  have "set_bytes (pre @ replicate (sum_list (map length (b # bs)) + k) 0) b (length pre)
        = Inr ((pre @ b) @ replicate (sum_list (map length bs) + k) 0)"
    by (rule set_bytes_zero') simp_all
  then show ?case
    using Cons.IH[of "pre @ b"] by (simp add: bind_err_def)
qed

lemma and_ff: "(v::nat) AND 0xff = v mod 256"
  using take_bit_eq_mask[of 8 v] by (simp add: take_bit_eq_mod mask_eq_exp_minus_1)

lemma replicate6: "replicate 6 (0::nat) = [0, 0, 0, 0, 0, 0]"
  by code_simp

lemma encode_timestamp_Num:
  "encode_timestamp (Num t) =
     [t div 1099511627776 mod 256, t div 4294967296 mod 256, t div 16777216 mod 256,
      t div 65536 mod 256, t div 256 mod 256, t mod 256]"
proof -
  have six: "(6::nat) = Suc (Suc (Suc (Suc (Suc (Suc 0)))))" by simp
  show ?thesis
    unfolding encode_timestamp_def jsnum.case six
    by (simp add: and_ff div_mult2_eq[symmetric])
qed

lemma length_encode_timestamp: "length (encode_timestamp ts) = 6"
proof (cases ts)
  case (Num t)
  then show ?thesis by (simp add: encode_timestamp_Num)
next
  case NaN
  then show ?thesis by (simp add: encode_timestamp_def)
qed

lemma mod_step: "(n::nat) div k mod 256 * k + n mod k = n mod (k * 256)"
  using mod_mult2_eq[of n k 256] by (simp add: mult.commute)

lemma join_bytes6:
  fixes t :: nat
  shows "((((t div 1099511627776 mod 256 * 256 + t div 4294967296 mod 256) * 256
           + t div 16777216 mod 256) * 256 + t div 65536 mod 256) * 256
           + t div 256 mod 256) * 256 + t mod 256 = t mod 281474976710656"
proof -
  have 1: "t div 256 mod 256 * 256 + t mod 256 = t mod 65536"
    using mod_step[of t 256] by simp
  have 2: "t div 65536 mod 256 * 65536 + t mod 65536 = t mod 16777216"
    using mod_step[of t 65536] by simp
  have 3: "t div 16777216 mod 256 * 16777216 + t mod 16777216 = t mod 4294967296"
    using mod_step[of t 16777216] by simp
  have 4: "t div 4294967296 mod 256 * 4294967296 + t mod 4294967296 = t mod 1099511627776"
    using mod_step[of t 4294967296] by simp
  have 5: "t div 1099511627776 mod 256 * 1099511627776 + t mod 1099511627776
           = t mod 281474976710656"
    using mod_step[of t 1099511627776] by simp
  have "((((t div 1099511627776 mod 256 * 256 + t div 4294967296 mod 256) * 256
           + t div 16777216 mod 256) * 256 + t div 65536 mod 256) * 256
           + t div 256 mod 256) * 256 + t mod 256
        = t div 1099511627776 mod 256 * 1099511627776
          + (t div 4294967296 mod 256 * 4294967296
          + (t div 16777216 mod 256 * 16777216
          + (t div 65536 mod 256 * 65536
          + (t div 256 mod 256 * 256 + t mod 256))))"
    by (simp add: algebra_simps)
  also have "\<dots> = t mod 281474976710656"
    by (simp only: 1 2 3 4 5)
  finally show ?thesis .
qed

lemma upt6: "[0..<6] = [0, 1, 2, 3, 4, 5]"
  by code_simp

lemma decode_timestamp_bytes:
  "off = length pre \<Longrightarrow>
   decode_timestamp (pre @ [b0, b1, b2, b3, b4, b5] @ post) off
   = Num (((((b0 * 256 + b1) * 256 + b2) * 256 + b3) * 256 + b4) * 256 + b5)"
  by (simp add: decode_timestamp_def upt6 byte_opt_def js_mul256_add_def nth_append)

lemma decode_encode_timestamp:
  "off = length pre \<Longrightarrow> decode_timestamp (pre @ encode_timestamp ts @ post) off = wrap48 ts"
proof (cases ts)
  case (Num t)
  assume "off = length pre"
  then show ?thesis
    unfolding Num encode_timestamp_Num
    by (simp only: decode_timestamp_bytes join_bytes6) simp
next
  case NaN
  assume "off = length pre"
  then show ?thesis
    using decode_timestamp_bytes[of off pre 0 0 0 0 0 0 post]
    by (simp add: NaN encode_timestamp_def replicate6)
qed

subsection \<open>Directory nodes\<close>

lemma update_zero:
  "off = length pre \<Longrightarrow> n = Suc k \<Longrightarrow>
   (pre @ replicate n 0)[off := x] = (pre @ [x]) @ replicate k 0"
  by (simp add: list_update_append)

lemma encode_dir_node_payload_valid:
  assumes "valid_dir_node d"
  shows "encode_dir_node_payload d = Inr (dir_payload_bytes d)"
proof (cases "group_id d")
  case None
  let ?sr = "smt_root d"
  let ?c = "encode_timestamp (dir_created d)"
  let ?m = "encode_timestamp (dir_modified d)"
  have h: "length ?sr = 32" using assms by (simp add: valid_dir_node_def)
  have 1: "set_bytes (replicate (32 + 1 + 0 + 6 + 6) 0) ?sr 0 = Inr (([] @ ?sr) @ replicate 13 0)"
    using set_bytes_zero'[of 0 "[]" "32 + 1 + 0 + 6 + 6" ?sr 13] h by simp
  have 2: "(([] @ ?sr) @ replicate 13 0)[0 + 32 := 0] = (([] @ ?sr) @ [0]) @ replicate 12 0"
    by (rule update_zero) (simp_all add: h)
  have 3: "set_bytes ((([] @ ?sr) @ [0]) @ replicate 12 0) ?c (0 + 32 + 1)
           = Inr (((([] @ ?sr) @ [0]) @ ?c) @ replicate 6 0)"
    by (rule set_bytes_zero') (simp_all add: h length_encode_timestamp)
  have 4: "set_bytes (((([] @ ?sr) @ [0]) @ ?c) @ replicate 6 0) ?m (0 + 32 + 1 + 6)
           = Inr ((((([] @ ?sr) @ [0]) @ ?c) @ ?m) @ replicate 0 0)"
    by (rule set_bytes_zero') (simp_all add: h length_encode_timestamp)
  have "encode_dir_node_payload d = Inr ((((([] @ ?sr) @ [0]) @ ?c) @ ?m) @ replicate 0 0)"
    unfolding encode_dir_node_payload_def Let_def HASH_SIZE_def TIMESTAMP_SIZE_def bind_err_def None
    by (simp only: 1 2 3 4 sum.case option.case prod.case if_False not_not refl if_True simp_thms)
  then show ?thesis by (simp add: dir_payload_bytes_def None)
next
  case (Some g)
  let ?sr = "smt_root d"
  let ?c = "encode_timestamp (dir_created d)"
  let ?m = "encode_timestamp (dir_modified d)"
  have h: "length ?sr = 32" "length g = 32" using assms Some by (simp_all add: valid_dir_node_def)
  have 1: "set_bytes (replicate (32 + 1 + 32 + 6 + 6) 0) ?sr 0 = Inr (([] @ ?sr) @ replicate 45 0)"
    using set_bytes_zero'[of 0 "[]" "32 + 1 + 32 + 6 + 6" ?sr 45] h by simp
  have 2: "(([] @ ?sr) @ replicate 45 0)[0 + 32 := 1] = (([] @ ?sr) @ [1]) @ replicate 44 0"
    by (rule update_zero) (simp_all add: h)
  have g2: "set_bytes ((([] @ ?sr) @ [1]) @ replicate 44 0) g (0 + 32 + 1)
           = Inr (((([] @ ?sr) @ [1]) @ g) @ replicate 12 0)"
    by (rule set_bytes_zero') (simp_all add: h)
  have 3: "set_bytes (((([] @ ?sr) @ [1]) @ g) @ replicate 12 0) ?c (0 + 32 + 1 + 32)
           = Inr ((((([] @ ?sr) @ [1]) @ g) @ ?c) @ replicate 6 0)"
    by (rule set_bytes_zero') (simp_all add: h length_encode_timestamp)
  have 4: "set_bytes ((((([] @ ?sr) @ [1]) @ g) @ ?c) @ replicate 6 0) ?m (0 + 32 + 1 + 32 + 6)
           = Inr (((((([] @ ?sr) @ [1]) @ g) @ ?c) @ ?m) @ replicate 0 0)"
    by (rule set_bytes_zero') (simp_all add: h length_encode_timestamp)
  have "encode_dir_node_payload d = Inr (((((([] @ ?sr) @ [1]) @ g) @ ?c) @ ?m) @ replicate 0 0)"
    unfolding encode_dir_node_payload_def Let_def HASH_SIZE_def TIMESTAMP_SIZE_def bind_err_def Some
    by (simp only: 1 2 g2 3 4 sum.case option.case prod.case if_False not_not refl if_True simp_thms
        option.distinct)
  then show ?thesis by (simp add: dir_payload_bytes_def Some)
qed

lemma slice_mid:
  "a = length pre \<Longrightarrow> b = a + length x \<Longrightarrow> slice (pre @ x @ post) a b = x"
  by (simp add: slice_def)

lemma decode_dir_node_payload_encode:
  assumes "valid_dir_node d"
  shows "decode_dir_node_payload (dir_payload_bytes d) = Inr (wrap_dir d)"
proof (cases "group_id d")
  case None
  let ?sr = "smt_root d"
  let ?c = "encode_timestamp (dir_created d)"
  let ?m = "encode_timestamp (dir_modified d)"
  define P where "P = dir_payload_bytes d"
  have h: "length ?sr = 32" using assms by (simp add: valid_dir_node_def)
  have P: "P = ?sr @ [0] @ ?c @ ?m" by (simp add: P_def dir_payload_bytes_def None)
  have s1: "slice P 0 32 = ?sr"
    using slice_mid[of 0 "[]" 32 ?sr "[0] @ ?c @ ?m"] h by (simp add: P)
  have b: "byte_opt P 32 = Some 0"
    using h by (simp add: P byte_opt_def nth_append)
  have t1: "decode_timestamp P 33 = wrap48 (dir_created d)"
    using decode_encode_timestamp[of 33 "?sr @ [0]" "dir_created d" ?m] h by (simp add: P)
  have t2: "decode_timestamp P 39 = wrap48 (dir_modified d)"
    using decode_encode_timestamp[of 39 "?sr @ [0] @ ?c" "dir_modified d" "[]"] h
    by (simp add: P length_encode_timestamp)
  show ?thesis
    unfolding P_def[symmetric]
    by (simp add: decode_dir_node_payload_def Let_def HASH_SIZE_def TIMESTAMP_SIZE_def s1 b t1 t2 None)
next
  case (Some g)
  let ?sr = "smt_root d"
  let ?c = "encode_timestamp (dir_created d)"
  let ?m = "encode_timestamp (dir_modified d)"
  define P where "P = dir_payload_bytes d"
  have h: "length ?sr = 32" "length g = 32" using assms Some by (simp_all add: valid_dir_node_def)
  have P: "P = ?sr @ [1] @ g @ ?c @ ?m" by (simp add: P_def dir_payload_bytes_def Some)
  have s1: "slice P 0 32 = ?sr"
    using slice_mid[of 0 "[]" 32 ?sr "[1] @ g @ ?c @ ?m"] h by (simp add: P)
  have b: "byte_opt P 32 = Some 1"
    using h by (simp add: P byte_opt_def nth_append)
  have s2: "slice P 33 65 = g"
    using slice_mid[of 33 "?sr @ [1]" 65 g "?c @ ?m"] h by (simp add: P)
  have t1: "decode_timestamp P 65 = wrap48 (dir_created d)"
    using decode_encode_timestamp[of 65 "?sr @ [1] @ g" "dir_created d" ?m] h by (simp add: P)
  have t2: "decode_timestamp P 71 = wrap48 (dir_modified d)"
    using decode_encode_timestamp[of 71 "?sr @ [1] @ g @ ?c" "dir_modified d" "[]"] h
    by (simp add: P length_encode_timestamp)
  show ?thesis
    unfolding P_def[symmetric]
    by (simp add: decode_dir_node_payload_def Let_def HASH_SIZE_def TIMESTAMP_SIZE_def
        s1 s2 b t1 t2 Some)
qed

lemma decode_dir_node_payload_total: "\<exists>d. decode_dir_node_payload payload = Inr d"
  by (simp add: decode_dir_node_payload_def Let_def)

text \<open>
  C7, as amended. Decoding a directory-node payload does not fail on the has-group
  byte: the group id is present exactly when that byte is \<open>0x01\<close>, and every other
  value is read as an absent group id.
\<close>

theorem decode_dir_node_payload_has_group:
  "length sr = 32 \<Longrightarrow>
   \<exists>d. decode_dir_node_payload (sr @ b # rest) = Inr d \<and> smt_root d = sr
       \<and> group_id d = (if b = 0x01 then Some (take 32 rest) else None)"
  by (simp add: decode_dir_node_payload_def Let_def HASH_SIZE_def slice_def byte_opt_def
      nth_append)

theorem decode_dir_node_payload_has_group_witness:
  "length (replicate 32 (7::nat)) = 32 \<and>
   (\<exists>d. decode_dir_node_payload (replicate 32 7 @ 0xff # replicate 12 0) = Inr d
       \<and> smt_root d = replicate 32 7 \<and> group_id d = None)"
  using decode_dir_node_payload_has_group[of "replicate 32 7" "0xff" "replicate 12 0"]
  by simp

text \<open>
  C7, as stated, fails: a has-group byte \<open>0x02\<close> is decoded as an absent group id,
  not rejected as malformed.
\<close>

theorem decode_dir_node_payload_accepts_two:
  "decode_dir_node_payload (replicate 32 0 @ [0x02] @ replicate 12 0)
   = Inr \<lparr>smt_root = replicate 32 0, group_id = None, dir_created = Num 0, dir_modified = Num 0\<rparr>"
  by code_simp

subsection \<open>File nodes: the payload written and read back\<close>

lemma set_chunk_bufs_zero':
  "off = length pre \<Longrightarrow> n = sum_list (map length bs) \<Longrightarrow>
   set_chunk_bufs (pre @ replicate n 0) bs off = Inr (pre @ concat bs)"
  using set_chunk_bufs_zero[of pre bs 0] by simp

lemma encode_file_node_payload_valid:
  assumes "valid_file_node f"
  shows "encode_file_node_payload f = Inr (file_payload_bytes f)"
proof -
  let ?ch = "content_hash f"
  let ?c = "encode_timestamp (created f)"
  let ?m = "encode_timestamp (modified f)"
  let ?sv = "varint_bytes (size f)"
  let ?cv = "varint_bytes (length (chunks f))"
  let ?bs = "map chunk_bytes (chunks f)"
  let ?T = "sum_list (map length ?bs)"
  have h: "length ?ch = 32" using assms by (simp add: valid_file_node_def)
  have 0: "encode_chunks (chunks f) = Inr ?bs"
    using assms by (simp add: valid_file_node_def encode_chunks_valid)
  have 1: "set_bytes (replicate (32 + 6 + 6 + length ?sv + length ?cv + ?T) 0) ?ch 0
           = Inr (([] @ ?ch) @ replicate (6 + 6 + length ?sv + length ?cv + ?T) 0)"
    using set_bytes_zero'[of 0 "[]" "32 + 6 + 6 + length ?sv + length ?cv + ?T" ?ch
        "6 + 6 + length ?sv + length ?cv + ?T"] h by simp
  have 2: "set_bytes (([] @ ?ch) @ replicate (6 + 6 + length ?sv + length ?cv + ?T) 0) ?c (0 + 32)
           = Inr ((([] @ ?ch) @ ?c) @ replicate (6 + length ?sv + length ?cv + ?T) 0)"
    by (rule set_bytes_zero') (simp_all add: h length_encode_timestamp)
  have 3: "set_bytes ((([] @ ?ch) @ ?c) @ replicate (6 + length ?sv + length ?cv + ?T) 0) ?m
             (0 + 32 + 6)
           = Inr (((([] @ ?ch) @ ?c) @ ?m) @ replicate (length ?sv + length ?cv + ?T) 0)"
    by (rule set_bytes_zero') (simp_all add: h length_encode_timestamp)
  have 4: "set_bytes (((([] @ ?ch) @ ?c) @ ?m) @ replicate (length ?sv + length ?cv + ?T) 0) ?sv
             (0 + 32 + 6 + 6)
           = Inr ((((([] @ ?ch) @ ?c) @ ?m) @ ?sv) @ replicate (length ?cv + ?T) 0)"
    by (rule set_bytes_zero') (simp_all add: h length_encode_timestamp)
  have 5: "set_bytes ((((([] @ ?ch) @ ?c) @ ?m) @ ?sv) @ replicate (length ?cv + ?T) 0) ?cv
             (0 + 32 + 6 + 6 + length ?sv)
           = Inr (((((([] @ ?ch) @ ?c) @ ?m) @ ?sv) @ ?cv) @ replicate ?T 0)"
    by (rule set_bytes_zero') (simp_all add: h length_encode_timestamp)
  have 6: "set_chunk_bufs (((((([] @ ?ch) @ ?c) @ ?m) @ ?sv) @ ?cv) @ replicate ?T 0) ?bs
             (0 + 32 + 6 + 6 + length ?sv + length ?cv)
           = Inr ((((((([] @ ?ch) @ ?c) @ ?m) @ ?sv) @ ?cv)) @ concat ?bs)"
    by (rule set_chunk_bufs_zero') (simp_all add: h length_encode_timestamp)
  have "encode_file_node_payload f = Inr ((((((([] @ ?ch) @ ?c) @ ?m) @ ?sv) @ ?cv)) @ concat ?bs)"
    unfolding encode_file_node_payload_def Let_def HASH_SIZE_def TIMESTAMP_SIZE_def bind_err_def
    by (simp only: 0 1 2 3 4 5 6 sum.case)
  then show ?thesis by (simp add: file_payload_bytes_def)
qed

lemma varint_len8: "x < 2 ^ 53 \<Longrightarrow> length (varint_bytes x) \<le> 8"
proof -
  assume "x < 2 ^ 53"
  then have "x < 2 ^ (7 * 8)" by (rule less_trans) simp
  then show ?thesis by (intro varint_bytes_length) simp_all
qed

lemma decode_varint_at:
  "length (varint_bytes x) \<le> 8 \<Longrightarrow> off = length pre \<Longrightarrow>
   decode_varint (pre @ varint_bytes x @ post) off = Inr (x, length (varint_bytes x))"
  using decode_varint_encode[of x pre post] by simp

lemma decode_chunk_ref_encode:
  assumes "valid_chunk c" and "off = length pre"
  shows "decode_chunk_ref (pre @ chunk_bytes c @ post) off = Inr (c, length (chunk_bytes c))"
proof -
  let ?v = "varint_bytes (index c)"
  define B where "B = pre @ chunk_bytes c @ post"
  have h: "length (hash c) = 32" "length (blob_address c) = 32" "length (nonce c) = 24"
    "length ?v \<le> 8"
    using assms by (simp_all add: valid_chunk_def varint_len8)
  have B: "B = pre @ ?v @ hash c @ blob_address c @ nonce c @ post"
    by (simp add: B_def chunk_bytes_def)
  have v: "decode_varint B off = Inr (index c, length ?v)"
    unfolding B using h assms(2) by (intro decode_varint_at) simp_all
  have s1: "slice B (off + length ?v) (off + length ?v + 32) = hash c"
    using slice_mid[of "off + length ?v" "pre @ ?v" "off + length ?v + 32" "hash c"
        "blob_address c @ nonce c @ post"] h assms(2) by (simp add: B)
  have s2: "slice B (off + length ?v + 32) (off + length ?v + 32 + 32) = blob_address c"
    using slice_mid[of "off + length ?v + 32" "pre @ ?v @ hash c" "off + length ?v + 32 + 32"
        "blob_address c" "nonce c @ post"] h assms(2) by (simp add: B)
  have s3: "slice B (off + length ?v + 32 + 32) (off + length ?v + 32 + 32 + 24) = nonce c"
    using slice_mid[of "off + length ?v + 32 + 32" "pre @ ?v @ hash c @ blob_address c"
        "off + length ?v + 32 + 32 + 24" "nonce c" post] h assms(2) by (simp add: B)
  have l: "length (chunk_bytes c) = length ?v + 88"
    using h by (simp add: chunk_bytes_def)
  show ?thesis
    unfolding B_def[symmetric] decode_chunk_ref_def Let_def HASH_SIZE_def NONCE_SIZE_def
      bind_err_def
    by (simp only: v sum.case prod.case s1 s2 s3) (simp add: l)
qed

lemma decode_chunks_loop_encode:
  "list_all valid_chunk cs \<Longrightarrow> off = length pre \<Longrightarrow>
   decode_chunks_loop (pre @ concat (map chunk_bytes cs) @ post) (i + length cs) i off acc
   = Inr (acc @ cs)"
proof (induction cs arbitrary: pre i off acc)
  case Nil
  then show ?case by (subst decode_chunks_loop.simps) simp
next
  case (Cons c cs)
  have d: "decode_chunk_ref (pre @ chunk_bytes c @ concat (map chunk_bytes cs) @ post) off
           = Inr (c, length (chunk_bytes c))"
    using Cons.prems by (intro decode_chunk_ref_encode) simp_all
  have ih: "decode_chunks_loop ((pre @ chunk_bytes c) @ concat (map chunk_bytes cs) @ post)
              (Suc i + length cs) (Suc i) (off + length (chunk_bytes c)) (acc @ [c])
            = Inr ((acc @ [c]) @ cs)"
    using Cons.prems by (intro Cons.IH) simp_all
  show ?case
    apply (subst decode_chunks_loop.simps)
    using d ih by simp
qed

lemma decode_file_node_payload_encode:
  assumes "valid_file_node f"
  shows "decode_file_node_payload (file_payload_bytes f) = Inr (wrap_file f)"
proof -
  let ?ch = "content_hash f"
  let ?c = "encode_timestamp (created f)"
  let ?m = "encode_timestamp (modified f)"
  let ?sv = "varint_bytes (size f)"
  let ?cv = "varint_bytes (length (chunks f))"
  let ?cs = "concat (map chunk_bytes (chunks f))"
  define P where "P = file_payload_bytes f"
  have h: "length ?ch = 32" "length ?sv \<le> 8" "length ?cv \<le> 8" "list_all valid_chunk (chunks f)"
    using assms by (simp_all add: valid_file_node_def varint_len8 less_trans[of _ "2 ^ 32"])
  have P: "P = ?ch @ ?c @ ?m @ ?sv @ ?cv @ ?cs"
    by (simp add: P_def file_payload_bytes_def)
  have s1: "slice P 0 32 = ?ch"
    using slice_mid[of 0 "[]" 32 ?ch "?c @ ?m @ ?sv @ ?cv @ ?cs"] h by (simp add: P)
  have t1: "decode_timestamp P 32 = wrap48 (created f)"
    using decode_encode_timestamp[of 32 ?ch "created f" "?m @ ?sv @ ?cv @ ?cs"] h
    by (simp add: P)
  have t2: "decode_timestamp P 38 = wrap48 (modified f)"
    using decode_encode_timestamp[of 38 "?ch @ ?c" "modified f" "?sv @ ?cv @ ?cs"] h
    by (simp add: P length_encode_timestamp)
  have v1: "decode_varint P 44 = Inr (size f, length ?sv)"
    using decode_varint_at[of "size f" 44 "?ch @ ?c @ ?m" "?cv @ ?cs"] h
    by (simp add: P length_encode_timestamp)
  have v2: "decode_varint P (44 + length ?sv) = Inr (length (chunks f), length ?cv)"
    using decode_varint_at[of "length (chunks f)" "44 + length ?sv" "?ch @ ?c @ ?m @ ?sv" ?cs] h
    by (simp add: P length_encode_timestamp)
  have l: "decode_chunks_loop P (length (chunks f)) 0 (44 + length ?sv + length ?cv) []
           = Inr (chunks f)"
    using decode_chunks_loop_encode[of "chunks f" "44 + length ?sv + length ?cv"
        "?ch @ ?c @ ?m @ ?sv @ ?cv" "[]" 0 "[]"] h
    by (simp add: P length_encode_timestamp)
  show ?thesis
    unfolding P_def[symmetric]
    by (simp add: decode_file_node_payload_def Let_def HASH_SIZE_def TIMESTAMP_SIZE_def
        bind_err_def s1 t1 t2 v1 v2 l)
qed

lemma has_magic_write_envelope: "has_magic (write_envelope tag payload)"
  by (simp add: has_magic_def write_envelope_def Let_def)

lemma decode_encode_file:
  assumes "valid_file_node f"
  shows "\<exists>buf. encode_node (File f) = Inr buf \<and> decode_node legacy buf = Inr (File (wrap_file f))"
  using assms
  by (simp add: encode_node_def encode_file_node_def encode_file_node_payload_valid bind_err_def
      decode_node_def has_magic_write_envelope read_write_envelope TAG_FILE_NODE_def
      decode_file_node_payload_encode del: wrap_file.simps)

lemma decode_encode_dir:
  assumes "valid_dir_node d"
  shows "\<exists>buf. encode_node (Dir d) = Inr buf \<and> decode_node legacy buf = Inr (Dir (wrap_dir d))"
  using assms
  by (simp add: encode_node_def encode_dir_node_def encode_dir_node_payload_valid bind_err_def
      decode_node_def has_magic_write_envelope read_write_envelope TAG_FILE_NODE_def
      TAG_DIR_NODE_def decode_dir_node_payload_encode del: wrap_dir.simps)

lemma wrap48_small: "t < 2 ^ 48 \<Longrightarrow> wrap48 (Num t) = Num t"
  by simp

text \<open>
  C10. For every well-formed node with numeric timestamps, \<open>encode_node\<close> succeeds,
  and \<open>decode_node\<close> of the result returns a node whose timestamps are the original
  ones modulo \<open>2 ^ 48\<close>: a timestamp from \<open>2 ^ 48\<close> on silently loses its high bits.
  When both timestamps are below \<open>2 ^ 48\<close> the node comes back unchanged.
\<close>

theorem encode_node_timestamps:
  assumes "valid_node n" and "node_created n = Num c" and "node_modified n = Num m"
  shows "\<exists>buf n'. encode_node n = Inr buf \<and> decode_node legacy buf = Inr n'
           \<and> node_created n' = Num (c mod 2 ^ 48) \<and> node_modified n' = Num (m mod 2 ^ 48)
           \<and> (c < 2 ^ 48 \<and> m < 2 ^ 48 \<longrightarrow> n' = n)"
proof (cases n)
  case (File f)
  from decode_encode_file[of f legacy] assms File obtain buf where
    b: "encode_node n = Inr buf" "decode_node legacy buf = Inr (File (wrap_file f))"
    by auto
  have "node_created (File (wrap_file f)) = Num (c mod 2 ^ 48)"
    "node_modified (File (wrap_file f)) = Num (m mod 2 ^ 48)"
    using assms File by simp_all
  moreover have "c < 2 ^ 48 \<and> m < 2 ^ 48 \<longrightarrow> File (wrap_file f) = n"
    using assms File by simp
  ultimately show ?thesis using b by blast
next
  case (Dir d)
  from decode_encode_dir[of d legacy] assms Dir obtain buf where
    b: "encode_node n = Inr buf" "decode_node legacy buf = Inr (Dir (wrap_dir d))"
    by auto
  have "node_created (Dir (wrap_dir d)) = Num (c mod 2 ^ 48)"
    "node_modified (Dir (wrap_dir d)) = Num (m mod 2 ^ 48)"
    using assms Dir by simp_all
  moreover have "c < 2 ^ 48 \<and> m < 2 ^ 48 \<longrightarrow> Dir (wrap_dir d) = n"
    using assms Dir by simp
  ultimately show ?thesis using b by blast
qed

subsection \<open>Truncated varints\<close>

theorem encode_node_timestamps_witness:
  "valid_node (Dir stamped_dir) \<and> node_created (Dir stamped_dir) = Num (2 ^ 48 + 5)
   \<and> node_modified (Dir stamped_dir) = Num 7
   \<and> (\<exists>buf n'. encode_node (Dir stamped_dir) = Inr buf
         \<and> decode_node (\<lambda>b. Inl Malformed) buf = Inr n'
         \<and> node_created n' = Num 5 \<and> node_modified n' = Num 7)"
proof -
  have v: "valid_node (Dir stamped_dir)"
    by (simp add: valid_dir_node_def stamped_dir_def)
  have c: "node_created (Dir stamped_dir) = Num (2 ^ 48 + 5)"
    and m: "node_modified (Dir stamped_dir) = Num 7"
    by (simp_all add: stamped_dir_def)
  from encode_node_timestamps[OF v c m, of "\<lambda>b. Inl Malformed"] obtain buf n' where
    "encode_node (Dir stamped_dir) = Inr buf" "decode_node (\<lambda>b. Inl Malformed) buf = Inr n'"
    "node_created n' = Num ((2 ^ 48 + 5) mod 2 ^ 48)" "node_modified n' = Num (7 mod 2 ^ 48)"
    by blast
  then show ?thesis using v c m by auto
qed

lemma decode_varint_short: "length buf \<le> off \<Longrightarrow> decode_varint buf off = Inl Truncated"
  by (simp add: decode_varint_def decode_varint_loop.simps[of buf off 0 0 off])

lemma decode_varint_loop_truncated:
  "shift + 7 * length (varint_bytes x) \<le> 56 \<Longrightarrow> k < length (varint_bytes x) \<Longrightarrow>
   decode_varint_loop (pre @ take k (varint_bytes x)) offset v shift (length pre) = Inl Truncated"
proof (induction x arbitrary: pre v shift k rule: varint_bytes.induct)
  case (1 n)
  show ?case
  proof (cases k)
    case 0
    then show ?thesis by (subst decode_varint_loop.simps) simp
  next
    case (Suc k')
    have big: "128 \<le> n"
    proof (rule ccontr)
      assume "\<not> 128 \<le> n"
      then have "varint_bytes n = [n]" by (simp add: varint_bytes_small)
      with "1.prems"(2) Suc show False by simp
    qed
    let ?b = "n mod 128 + 128"
    have vb: "varint_bytes n = ?b # varint_bytes (n div 128)"
      using big by (rule varint_bytes_big)
    have len: "shift + 7 + 7 * length (varint_bytes (n div 128)) \<le> 56"
      using "1.prems"(1) by (simp add: vb)
    have k': "k' < length (varint_bytes (n div 128))"
      using "1.prems"(2) Suc by (simp add: vb)
    have sh: "shift + 7 \<le> 49" using len k' by linarith
    have d: "0 < n div 128" using big by (simp add: div_greater_zero_iff)
    have bodd: "\<not> even (?b div 128)" by (simp add: div_add1_eq)
    have ih: "decode_varint_loop ((pre @ [?b]) @ take k' (varint_bytes (n div 128))) offset
                 (v + (n mod 128) * 2 ^ shift) (shift + 7) (length (pre @ [?b])) = Inl Truncated"
      by (rule "1.IH"[OF refl refl d]) (use len k' in simp_all)
    show ?thesis
      apply (subst decode_varint_loop.simps)
      using ih sh bodd by (simp add: vb Suc and_7f and_80_zero_iff Let_def)
  qed
qed

lemma decode_varint_take:
  assumes "length (varint_bytes x) \<le> 8" and "off = length pre"
  shows "decode_varint (take n (pre @ varint_bytes x @ post)) off
         = (if n < length pre + length (varint_bytes x) then Inl Truncated
            else Inr (x, length (varint_bytes x)))"
proof -
  consider "n \<le> length pre" | "length pre < n" "n < length pre + length (varint_bytes x)"
    | "length pre + length (varint_bytes x) \<le> n"
    by linarith
  then show ?thesis
  proof cases
    case 1
    have "0 < length (varint_bytes x)"
      by (subst varint_bytes.simps) (simp add: Let_def)
    then have "n < length pre + length (varint_bytes x)" using 1 by linarith
    then show ?thesis
      using 1 assms(2) by (simp add: decode_varint_short)
  next
    case 2
    have t: "take n (pre @ varint_bytes x @ post) = pre @ take (n - length pre) (varint_bytes x)"
      using 2 by simp
    have "decode_varint_loop (pre @ take (n - length pre) (varint_bytes x)) (length pre) 0 0
            (length pre) = Inl Truncated"
      using assms(1) 2 by (intro decode_varint_loop_truncated) simp_all
    then show ?thesis using 2 assms(2) by (simp add: t decode_varint_def)
  next
    case 3
    have t: "take n (pre @ varint_bytes x @ post)
             = pre @ varint_bytes x @ take (n - length pre - length (varint_bytes x)) post"
      using 3 by simp
    show ?thesis
      using 3 assms decode_varint_at[of x off pre] by (simp add: t)
  qed
qed

subsection \<open>Truncated file-node payloads\<close>

lemma length_chunk_bytes:
  "valid_chunk c \<Longrightarrow> length (chunk_bytes c) = length (varint_bytes (index c)) + 88"
  by (simp add: chunk_bytes_def valid_chunk_def)

lemma decode_chunk_ref_take:
  assumes "valid_chunk c" and "off = length pre"
  shows "if n < length pre + length (varint_bytes (index c))
         then decode_chunk_ref (take n (pre @ chunk_bytes c @ post)) off = Inl Truncated
         else (\<exists>c'. decode_chunk_ref (take n (pre @ chunk_bytes c @ post)) off
                      = Inr (c', length (chunk_bytes c)))"
proof -
  let ?v = "varint_bytes (index c)"
  define B where "B = take n (pre @ chunk_bytes c @ post)"
  have l: "length ?v \<le> 8" using assms(1) by (simp add: valid_chunk_def varint_len8)
  have "decode_varint (take n (pre @ ?v @ (hash c @ blob_address c @ nonce c @ post))) off
        = (if n < length pre + length ?v then Inl Truncated else Inr (index c, length ?v))"
    using l assms(2) by (rule decode_varint_take)
  then have v: "decode_varint B off
        = (if n < length pre + length ?v then Inl Truncated else Inr (index c, length ?v))"
    by (simp add: chunk_bytes_def B_def)
  show ?thesis
    unfolding B_def[symmetric]
    using v length_chunk_bytes[OF assms(1)]
    by (simp add: decode_chunk_ref_def Let_def bind_err_def HASH_SIZE_def NONCE_SIZE_def)
qed

lemma decode_chunks_loop_truncated:
  "list_all valid_chunk cs \<Longrightarrow> cs \<noteq> [] \<Longrightarrow> off = length pre \<Longrightarrow>
   n + 88 < length pre + length (concat (map chunk_bytes cs)) \<Longrightarrow>
   decode_chunks_loop (take n (pre @ concat (map chunk_bytes cs))) (i + length cs) i off acc
   = Inl Truncated"
proof (induction cs arbitrary: pre i off acc)
  case Nil
  then show ?case by simp
next
  case (Cons c cs)
  have vc: "valid_chunk c" using Cons.prems(1) by simp
  let ?B = "take n (pre @ concat (map chunk_bytes (c # cs)))"
  have B: "?B = take n (pre @ chunk_bytes c @ concat (map chunk_bytes cs))" by simp
  note d = decode_chunk_ref_take[OF vc Cons.prems(3), of n "concat (map chunk_bytes cs)"]
  show ?case
  proof (cases "n < length pre + length (varint_bytes (index c))")
    case True
    then have "decode_chunk_ref ?B off = Inl Truncated" using d by (simp only: B if_True)
    then show ?thesis
      by (subst decode_chunks_loop.simps) simp
  next
    case False
    then obtain c' where c': "decode_chunk_ref ?B off = Inr (c', length (chunk_bytes c))"
      using d by (auto simp only: B if_False)
    have ne: "cs \<noteq> []"
    proof
      assume "cs = []"
      then have "n + 88 < length pre + length (chunk_bytes c)" using Cons.prems(4) by simp
      then show False using False length_chunk_bytes[OF vc] by simp
    qed
    have ih: "decode_chunks_loop (take n ((pre @ chunk_bytes c) @ concat (map chunk_bytes cs)))
                (Suc i + length cs) (Suc i) (off + length (chunk_bytes c)) (acc @ [c'])
              = Inl Truncated"
      using Cons.prems ne by (intro Cons.IH) simp_all
    show ?thesis
      apply (subst decode_chunks_loop.simps)
      using c' ih by simp
  qed
qed

lemma length_varint_pos: "0 < length (varint_bytes x)"
  by (subst varint_bytes.simps) (simp add: Let_def)

lemma decode_file_node_payload_truncated:
  assumes "valid_file_node f"
    and "n + (if chunks f = [] then 0 else 88) < length (file_payload_bytes f)"
  shows "decode_file_node_payload (take n (file_payload_bytes f)) = Inl Truncated"
proof -
  let ?ch = "content_hash f"
  let ?c = "encode_timestamp (created f)"
  let ?m = "encode_timestamp (modified f)"
  let ?sv = "varint_bytes (size f)"
  let ?cv = "varint_bytes (length (chunks f))"
  let ?cs = "concat (map chunk_bytes (chunks f))"
  define P where "P = take n (file_payload_bytes f)"
  have h: "length ?ch = 32" "length ?sv \<le> 8" "length ?cv \<le> 8" "list_all valid_chunk (chunks f)"
    using assms(1) by (simp_all add: valid_file_node_def varint_len8 less_trans[of _ "2 ^ 32"])
  have hd: "length (?ch @ ?c @ ?m) = 44" using h by (simp add: length_encode_timestamp)
  have P1: "P = take n ((?ch @ ?c @ ?m) @ ?sv @ (?cv @ ?cs))"
    by (simp add: P_def file_payload_bytes_def)
  have P2: "P = take n ((?ch @ ?c @ ?m @ ?sv) @ ?cv @ ?cs)"
    by (simp add: P_def file_payload_bytes_def)
  have P3: "P = take n ((?ch @ ?c @ ?m @ ?sv @ ?cv) @ ?cs)"
    by (simp add: P_def file_payload_bytes_def)
  have v1: "decode_varint P 44
            = (if n < 44 + length ?sv then Inl Truncated else Inr (size f, length ?sv))"
    unfolding P1 using decode_varint_take[OF h(2), of 44 "?ch @ ?c @ ?m" n "?cv @ ?cs"] hd
    by simp
  have v2: "decode_varint P (44 + length ?sv)
            = (if n < 44 + length ?sv + length ?cv then Inl Truncated
               else Inr (length (chunks f), length ?cv))"
    unfolding P2
    using decode_varint_take[OF h(3), of "44 + length ?sv" "?ch @ ?c @ ?m @ ?sv" n ?cs] hd
    by simp
  have l: "44 + length ?sv + length ?cv \<le> n \<Longrightarrow>
           decode_chunks_loop P (length (chunks f)) 0 (44 + length ?sv + length ?cv) []
           = Inl Truncated"
  proof -
    assume n: "44 + length ?sv + length ?cv \<le> n"
    have ne: "chunks f \<noteq> []"
    proof
      assume e: "chunks f = []"
      then have "length (file_payload_bytes f) = 44 + length ?sv + length ?cv"
        using hd by (simp add: file_payload_bytes_def)
      with assms(2) e n show False by simp
    qed
    have "n + 88 < length (?ch @ ?c @ ?m @ ?sv @ ?cv) + length ?cs"
      using assms(2) ne by (simp add: file_payload_bytes_def)
    then show ?thesis
      unfolding P3
      using decode_chunks_loop_truncated[OF h(4) ne, of "44 + length ?sv + length ?cv"
          "?ch @ ?c @ ?m @ ?sv @ ?cv" n 0 "[]"] hd
      by simp
  qed
  show ?thesis
    unfolding P_def[symmetric]
    using l
    by (simp add: decode_file_node_payload_def Let_def HASH_SIZE_def TIMESTAMP_SIZE_def
        bind_err_def v1 v2)
qed

lemma slice_take_mid:
  "a = length pre + length x \<Longrightarrow> b = a + length h \<Longrightarrow>
   slice (pre @ take k (x @ h @ r)) a b = take (k - length x) h"
  by (simp add: slice_def drop_take min_def)

lemma decode_chunk_ref_cut:
  assumes "valid_chunk c" and "off = length pre"
    and "length pre + length (varint_bytes (index c)) \<le> n"
  shows "decode_chunk_ref (take n (pre @ chunk_bytes c)) off
         = Inr (cut_chunk (n - (length pre + length (varint_bytes (index c)))) c,
                length (chunk_bytes c))"
proof -
  let ?v = "varint_bytes (index c)"
  define k where "k = n - (length pre + length ?v)"
  define B where "B = take n (pre @ chunk_bytes c)"
  have h: "length (hash c) = 32" "length (blob_address c) = 32" "length (nonce c) = 24"
    "length ?v \<le> 8"
    using assms(1) by (simp_all add: valid_chunk_def varint_len8)
  have B: "B = pre @ ?v @ take k (hash c @ blob_address c @ nonce c)"
    using assms(3) by (simp add: B_def chunk_bytes_def k_def)
  have v: "decode_varint B off = Inr (index c, length ?v)"
    unfolding B using h assms(2) by (intro decode_varint_at) simp_all
  have s1: "slice B (off + length ?v) (off + length ?v + 32) = take k (hash c)"
    using slice_take_mid[of "off + length ?v" "pre @ ?v" "[]" "off + length ?v + 32" "hash c" k
        "blob_address c @ nonce c"] h assms(2) by (simp add: B)
  have s2: "slice B (off + length ?v + 32) (off + length ?v + 32 + 32)
            = take (k - 32) (blob_address c)"
    using slice_take_mid[of "off + length ?v + 32" "pre @ ?v" "hash c" "off + length ?v + 32 + 32"
        "blob_address c" k "nonce c"] h assms(2) by (simp add: B)
  have s3: "slice B (off + length ?v + 32 + 32) (off + length ?v + 32 + 32 + 24)
            = take (k - 64) (nonce c)"
    using slice_take_mid[of "off + length ?v + 32 + 32" "pre @ ?v" "hash c @ blob_address c"
        "off + length ?v + 32 + 32 + 24" "nonce c" k "[]"] h assms(2) by (simp add: B)
  have l: "length (chunk_bytes c) = length ?v + 88"
    using h by (simp add: chunk_bytes_def)
  show ?thesis
    unfolding B_def[symmetric] k_def[symmetric] decode_chunk_ref_def Let_def HASH_SIZE_def
      NONCE_SIZE_def bind_err_def
    by (simp only: v sum.case prod.case s1 s2 s3) (simp add: l cut_chunk_def)
qed

lemma decode_chunks_loop_cut:
  "list_all valid_chunk cs \<Longrightarrow> valid_chunk c \<Longrightarrow> off = length pre \<Longrightarrow>
   length pre + length (concat (map chunk_bytes (cs @ [c]))) \<le> n + 88 \<Longrightarrow>
   decode_chunks_loop (take n (pre @ concat (map chunk_bytes (cs @ [c])))) (Suc (i + length cs)) i
     off acc
   = Inr (acc @ cs
          @ [cut_chunk (n + 88 - (length pre + length (concat (map chunk_bytes (cs @ [c]))))) c])"
proof (induction cs arbitrary: pre i off acc)
  case Nil
  have le: "length pre + length (varint_bytes (index c)) \<le> n"
    using Nil.prems(4) length_chunk_bytes[OF Nil.prems(2)] by simp
  have k: "n + 88 - (length pre + length (chunk_bytes c))
           = n - (length pre + length (varint_bytes (index c)))"
    using length_chunk_bytes[OF Nil.prems(2)] by simp
  have d: "decode_chunk_ref (take n (pre @ chunk_bytes c)) off
           = Inr (cut_chunk (n + 88 - (length pre + length (chunk_bytes c))) c,
                  length (chunk_bytes c))"
    using decode_chunk_ref_cut[OF Nil.prems(2) Nil.prems(3) le] by (simp only: k)
  show ?case
    apply (subst decode_chunks_loop.simps)
    apply (subst decode_chunks_loop.simps)
    using d by simp
next
  case (Cons c0 cs)
  have vc: "valid_chunk c0" using Cons.prems(1) by simp
  let ?rest = "concat (map chunk_bytes (cs @ [c]))"
  have "88 < length ?rest"
    using length_chunk_bytes[OF Cons.prems(2)] length_varint_pos[of "index c"] by simp
  then have le: "length (pre @ chunk_bytes c0) \<le> n" using Cons.prems(4) by simp
  have B: "take n (pre @ concat (map chunk_bytes ((c0 # cs) @ [c])))
           = pre @ chunk_bytes c0 @ take (n - length (pre @ chunk_bytes c0)) ?rest"
    using le by simp
  have d: "decode_chunk_ref (take n (pre @ concat (map chunk_bytes ((c0 # cs) @ [c])))) off
           = Inr (c0, length (chunk_bytes c0))"
    unfolding B using vc Cons.prems(3) by (rule decode_chunk_ref_encode)
  have ih: "decode_chunks_loop (take n ((pre @ chunk_bytes c0) @ ?rest)) (Suc (Suc i + length cs))
              (Suc i) (off + length (chunk_bytes c0)) (acc @ [c0])
            = Inr ((acc @ [c0]) @ cs
                   @ [cut_chunk (n + 88 - (length (pre @ chunk_bytes c0) + length ?rest)) c])"
    using Cons.prems by (intro Cons.IH) simp_all
  show ?case
    apply (subst decode_chunks_loop.simps)
    using d ih by (simp add: add.assoc)
qed

lemma decode_file_node_payload_cut_last:
  assumes "valid_file_node f" and "chunks f \<noteq> []"
    and "length (file_payload_bytes f) \<le> n + 88"
  shows "decode_file_node_payload (take n (file_payload_bytes f))
         = Inr ((wrap_file f)
                 \<lparr>chunks := butlast (chunks f)
                    @ [cut_chunk (n + 88 - length (file_payload_bytes f)) (last (chunks f))]\<rparr>)"
proof -
  let ?ch = "content_hash f"
  let ?c = "encode_timestamp (created f)"
  let ?m = "encode_timestamp (modified f)"
  let ?sv = "varint_bytes (size f)"
  let ?cv = "varint_bytes (length (chunks f))"
  let ?cs = "concat (map chunk_bytes (chunks f))"
  let ?H = "44 + length ?sv + length ?cv"
  define P where "P = take n (file_payload_bytes f)"
  define R where "R = take (n - ?H) ?cs"
  have h: "length ?ch = 32" "length ?sv \<le> 8" "length ?cv \<le> 8" "list_all valid_chunk (chunks f)"
    using assms(1) by (simp_all add: valid_file_node_def varint_len8 less_trans[of _ "2 ^ 32"])
  have hd: "length (?ch @ ?c @ ?m) = 44" using h by (simp add: length_encode_timestamp)
  have bl: "chunks f = butlast (chunks f) @ [last (chunks f)]" using assms(2) by simp
  have vb: "list_all valid_chunk (butlast (chunks f))" "valid_chunk (last (chunks f))"
    using h(4) assms(2) by (simp_all add: list_all_iff in_set_butlastD)
  have "88 < length (chunk_bytes (last (chunks f)))"
    using length_chunk_bytes[OF vb(2)] length_varint_pos[of "index (last (chunks f))"] by simp
  moreover have "length (chunk_bytes (last (chunks f))) \<le> length ?cs"
    by (subst (2) bl) simp
  ultimately have n: "?H < n"
    using assms(3) hd by (simp add: file_payload_bytes_def)
  have P: "P = ?ch @ ?c @ ?m @ ?sv @ ?cv @ R"
    using n hd h by (simp add: P_def R_def file_payload_bytes_def length_encode_timestamp)
  have P3: "P = take n ((?ch @ ?c @ ?m @ ?sv @ ?cv) @ ?cs)"
    by (simp add: P_def file_payload_bytes_def)
  have s1: "slice P 0 32 = ?ch"
    using slice_mid[of 0 "[]" 32 ?ch "?c @ ?m @ ?sv @ ?cv @ R"] h by (simp add: P)
  have t1: "decode_timestamp P 32 = wrap48 (created f)"
    using decode_encode_timestamp[of 32 ?ch "created f" "?m @ ?sv @ ?cv @ R"] h
    by (simp add: P)
  have t2: "decode_timestamp P 38 = wrap48 (modified f)"
    using decode_encode_timestamp[of 38 "?ch @ ?c" "modified f" "?sv @ ?cv @ R"] h
    by (simp add: P length_encode_timestamp)
  have v1: "decode_varint P 44 = Inr (size f, length ?sv)"
    using decode_varint_at[of "size f" 44 "?ch @ ?c @ ?m" "?cv @ R"] h
    by (simp add: P length_encode_timestamp)
  have v2: "decode_varint P (44 + length ?sv) = Inr (length (chunks f), length ?cv)"
    using decode_varint_at[of "length (chunks f)" "44 + length ?sv" "?ch @ ?c @ ?m @ ?sv" R] h
    by (simp add: P length_encode_timestamp)
  have len: "length (?ch @ ?c @ ?m @ ?sv @ ?cv) = ?H"
    using hd by simp
  have L: "length (file_payload_bytes f) = ?H + length ?cs"
    using hd by (simp add: file_payload_bytes_def)
  have "decode_chunks_loop
          (take n ((?ch @ ?c @ ?m @ ?sv @ ?cv)
                   @ concat (map chunk_bytes (butlast (chunks f) @ [last (chunks f)]))))
          (Suc (0 + length (butlast (chunks f)))) 0 ?H []
        = Inr ([] @ butlast (chunks f)
               @ [cut_chunk (n + 88 - (length (?ch @ ?c @ ?m @ ?sv @ ?cv)
                     + length (concat (map chunk_bytes (butlast (chunks f) @ [last (chunks f)])))))
                    (last (chunks f))])"
    using vb len assms(3) L bl by (intro decode_chunks_loop_cut) simp_all
  then have l: "decode_chunks_loop P (length (chunks f)) 0 ?H []
                = Inr (butlast (chunks f)
                       @ [cut_chunk (n + 88 - length (file_payload_bytes f)) (last (chunks f))])"
    using bl[symmetric] assms(2) L h(1) by (simp add: P3 length_encode_timestamp)
  show ?thesis
    unfolding P_def[symmetric]
    by (simp add: decode_file_node_payload_def Let_def HASH_SIZE_def TIMESTAMP_SIZE_def
        bind_err_def s1 t1 t2 v1 v2 l)
qed

lemma cut_chunk_nonce_short:
  "k < 88 \<Longrightarrow> length (nonce (cut_chunk k c)) < 24"
  by (simp add: cut_chunk_def)

text \<open>
  C8, as amended. For the payload that \<open>encode_file_node\<close> writes for a well-formed
  file node: decoding it returns the node, timestamps modulo \<open>2 ^ 48\<close>, with the chunk
  references in payload order; a prefix from which more than 88 bytes are missing (any
  proper prefix, when there is no chunk) fails with \<open>Truncated\<close>; a prefix from which
  at most 88 bytes are missing, when there is a chunk, decodes without error, and the
  node returned differs from the full one only in the last chunk, whose hash, blob
  address and nonce are cut to the bytes that the prefix holds; for a proper prefix the
  nonce, at least, has fewer than 24 bytes.
\<close>

theorem decode_file_node_payload_order_and_truncation:
  assumes "valid_file_node f"
  shows "encode_file_node_payload f = Inr (file_payload_bytes f)
         \<and> decode_file_node_payload (file_payload_bytes f) = Inr (wrap_file f)
         \<and> chunks (wrap_file f) = chunks f
         \<and> (\<forall>n. n + (if chunks f = [] then 0 else 88) < length (file_payload_bytes f)
                \<longrightarrow> decode_file_node_payload (take n (file_payload_bytes f)) = Inl Truncated)
         \<and> (\<forall>n. chunks f \<noteq> [] \<and> length (file_payload_bytes f) \<le> n + 88
                \<longrightarrow> decode_file_node_payload (take n (file_payload_bytes f))
                    = Inr ((wrap_file f)
                            \<lparr>chunks := butlast (chunks f)
                               @ [cut_chunk (n + 88 - length (file_payload_bytes f))
                                    (last (chunks f))]\<rparr>))
         \<and> (\<forall>n. n < length (file_payload_bytes f)
                \<longrightarrow> length (nonce (cut_chunk (n + 88 - length (file_payload_bytes f))
                                     (last (chunks f)))) < 24)"
proof (intro conjI allI impI)
  show "encode_file_node_payload f = Inr (file_payload_bytes f)"
    using assms by (rule encode_file_node_payload_valid)
  show "decode_file_node_payload (file_payload_bytes f) = Inr (wrap_file f)"
    using assms by (rule decode_file_node_payload_encode)
  show "chunks (wrap_file f) = chunks f" by simp
next
  fix n
  assume "n + (if chunks f = [] then 0 else 88) < length (file_payload_bytes f)"
  with assms show "decode_file_node_payload (take n (file_payload_bytes f)) = Inl Truncated"
    by (rule decode_file_node_payload_truncated)
next
  fix n
  assume "chunks f \<noteq> [] \<and> length (file_payload_bytes f) \<le> n + 88"
  with assms show "decode_file_node_payload (take n (file_payload_bytes f))
                    = Inr ((wrap_file f)
                            \<lparr>chunks := butlast (chunks f)
                               @ [cut_chunk (n + 88 - length (file_payload_bytes f))
                                    (last (chunks f))]\<rparr>)"
    by (intro decode_file_node_payload_cut_last) simp_all
next
  fix n
  assume "n < length (file_payload_bytes f)"
  then show "length (nonce (cut_chunk (n + 88 - length (file_payload_bytes f))
                                     (last (chunks f)))) < 24"
    by (intro cut_chunk_nonce_short) simp
qed

lemma one_chunk_file_payload: "file_payload_bytes one_chunk_file = replicate 45 0 @ 1 # replicate 89 0"
  by code_simp

theorem decode_file_node_payload_order_and_truncation_witness:
  "valid_file_node one_chunk_file
   \<and> encode_file_node_payload one_chunk_file = Inr (replicate 45 0 @ 1 # replicate 89 0)
   \<and> decode_file_node_payload (replicate 45 0 @ 1 # replicate 89 0) = Inr one_chunk_file
   \<and> 46 + (if chunks one_chunk_file = [] then 0 else 88) < length (replicate 45 0 @ 1 # replicate 89 (0::nat))
   \<and> decode_file_node_payload (take 46 (replicate 45 0 @ 1 # replicate 89 0)) = Inl Truncated
   \<and> chunks one_chunk_file \<noteq> []
   \<and> length (replicate 45 0 @ 1 # replicate 89 (0::nat)) \<le> 47 + 88
   \<and> decode_file_node_payload (take 47 (replicate 45 0 @ 1 # replicate 89 0))
     = Inr \<lparr>content_hash = replicate 32 0, size = 0, created = Num 0, modified = Num 0,
            chunks = [\<lparr>index = 0, hash = [], blob_address = [], nonce = []\<rparr>]\<rparr>
   \<and> length (nonce (cut_chunk (47 + 88 - 135) (last (chunks one_chunk_file)))) < 24"
proof -
  have v: "valid_file_node one_chunk_file"
    by (simp add: valid_file_node_def valid_chunk_def one_chunk_file_def)
  have l: "length (file_payload_bytes one_chunk_file) = 135"
    by (simp add: one_chunk_file_payload)
  have c: "chunks one_chunk_file \<noteq> []" by (simp add: one_chunk_file_def)
  have w: "wrap_file one_chunk_file = one_chunk_file"
    by (simp add: one_chunk_file_def)
  note t = decode_file_node_payload_order_and_truncation[OF v]
  have 1: "encode_file_node_payload one_chunk_file = Inr (replicate 45 0 @ 1 # replicate 89 0)"
    using t by (simp only: one_chunk_file_payload)
  have 2: "decode_file_node_payload (replicate 45 0 @ 1 # replicate 89 0) = Inr one_chunk_file"
    using t by (simp only: one_chunk_file_payload w)
  have h3: "46 + (if chunks one_chunk_file = [] then 0 else 88)
        < length (file_payload_bytes one_chunk_file)"
    using c l by simp
  then have 3: "decode_file_node_payload (take 46 (file_payload_bytes one_chunk_file))
                = Inl Truncated"
    using t by blast
  have h4: "chunks one_chunk_file \<noteq> [] \<and> length (file_payload_bytes one_chunk_file) \<le> 47 + 88"
    using c l by simp
  then have a: "decode_file_node_payload (take 47 (file_payload_bytes one_chunk_file))
             = Inr ((wrap_file one_chunk_file)
                     \<lparr>chunks := butlast (chunks one_chunk_file)
                        @ [cut_chunk (47 + 88 - length (file_payload_bytes one_chunk_file))
                             (last (chunks one_chunk_file))]\<rparr>)"
    using t by blast
  have r: "(wrap_file one_chunk_file)
              \<lparr>chunks := butlast (chunks one_chunk_file)
                 @ [cut_chunk (47 + 88 - 135) (last (chunks one_chunk_file))]\<rparr>
           = \<lparr>content_hash = replicate 32 0, size = 0, created = Num 0, modified = Num 0,
              chunks = [\<lparr>index = 0, hash = [], blob_address = [], nonce = []\<rparr>]\<rparr>"
    by (simp add: one_chunk_file_def cut_chunk_def)
  have 4: "decode_file_node_payload (take 47 (file_payload_bytes one_chunk_file))
     = Inr \<lparr>content_hash = replicate 32 0, size = 0, created = Num 0, modified = Num 0,
            chunks = [\<lparr>index = 0, hash = [], blob_address = [], nonce = []\<rparr>]\<rparr>"
    using a by (simp only: l r)
  have 5: "length (nonce (cut_chunk (47 + 88 - 135) (last (chunks one_chunk_file)))) < 24"
    by (simp add: cut_chunk_def)
  have 6: "length (replicate 45 0 @ 1 # replicate 89 (0::nat)) \<le> 47 + 88" by simp
  have 7: "46 + (if chunks one_chunk_file = [] then 0 else 88)
           < length (replicate 45 0 @ 1 # replicate 89 (0::nat))"
    using h3 by (simp only: one_chunk_file_payload)
  show ?thesis
    using v 1 2 3 4 5 6 7 c by (simp only: one_chunk_file_payload simp_thms)
qed

text \<open>
  C8, as stated, fails: the payload of a one-chunk file node without its last byte is
  a proper prefix of a valid payload, and decoding it returns a file node whose nonce
  has 23 bytes.
\<close>

theorem decode_file_node_payload_short_nonce:
  "encode_file_node_payload one_chunk_file = Inr (replicate 45 0 @ 1 # replicate 89 0)
   \<and> decode_file_node_payload (take 134 (replicate 45 0 @ 1 # replicate 89 0))
     = Inr \<lparr>content_hash = replicate 32 0, size = 0, created = Num 0, modified = Num 0,
            chunks = [\<lparr>index = 0, hash = replicate 32 0, blob_address = replicate 32 0,
                       nonce = replicate 23 0\<rparr>]\<rparr>"
  by code_simp

subsection \<open>A frequency table whose tree is deeper than 15\<close>

lemma upt_split: "[0..<256] = [0..<97] @ [97..<114] @ [114..<256]"
proof -
  have "[0..<256] = [0..<97] @ [97..<256]"
    using upt_add_eq_append[of 0 97 159] by simp
  moreover have "[97..<256] = [97..<114] @ [114..<256]"
    using upt_add_eq_append[of 97 114 142] by simp
  ultimately show ?thesis by simp
qed

lemma upt_symbols:
  "[97..<114] = [97, 98, 99, 100, 101, 102, 103, 104, 105, 106, 107, 108, 109, 110, 111, 112, 113]"
  by (simp add: upt_rec)

lemma active_symbols_fib:
  "active_symbols fib_frequencies =
     [(97, 1), (98, 1), (99, 2), (100, 3), (101, 5), (102, 8), (103, 13), (104, 21), (105, 34),
      (106, 55), (107, 89), (108, 144), (109, 233), (110, 377), (111, 610), (112, 987),
      (113, 1597)]"
proof -
  have lo: "filter (\<lambda>i. fib_frequencies ! i > 0) [0..<97] = []"
    by (simp add: filter_empty_conv fib_frequencies_def nth_append)
  have hi: "filter (\<lambda>i. fib_frequencies ! i > 0) [114..<256] = []"
    by (auto simp: filter_empty_conv fib_frequencies_def nth_append)
  have mid: "filter (\<lambda>i. fib_frequencies ! i > 0) [97..<114] = [97..<114]"
    unfolding upt_symbols by (simp add: fib_frequencies_def nth_append)
  have "active_symbols fib_frequencies = map (\<lambda>i. (i, fib_frequencies ! i)) [97..<114]"
    by (simp only: active_symbols_def upt_split filter_append lo hi mid append_Nil append_Nil2)
  then show ?thesis
    unfolding upt_symbols by (simp add: fib_frequencies_def nth_append)
qed

lemma merge_loop_fib:
  "merge_loop [(1, Leaf 97), (1, Leaf 98), (2, Leaf 99), (3, Leaf 100), (5, Leaf 101),
      (8, Leaf 102), (13, Leaf 103), (21, Leaf 104), (34, Leaf 105), (55, Leaf 106),
      (89, Leaf 107), (144, Leaf 108), (233, Leaf 109), (377, Leaf 110), (610, Leaf 111),
      (987, Leaf 112), (1597, Leaf 113)] = [(4180, fib_tree)]"
  by (simp add: merge_loop.simps insert_sorted_def fib_tree_def)

lemma update_Cons_numeral: "(x # xs)[numeral k := y] = x # xs[pred_numeral k := y]"
  by (simp add: numeral_eq_Suc)

lemma replicate17: "replicate 17 (0::nat) = [0, 0, 0, 0, 0, 0, 0, 0, 0, 0, 0, 0, 0, 0, 0, 0, 0]"
  by (simp add: numeral_eq_Suc)

lemma replicate256_split: "replicate 256 (0::nat) = replicate 97 0 @ replicate 17 0 @ replicate 142 0"
  by (simp add: replicate_add[symmetric])

lemma walk_fib: "walk fib_tree 0 (replicate 256 0) = fib_lengths"
  unfolding replicate256_split replicate17
  by (simp add: fib_tree_def fib_lengths_def list_update_append update_Cons_numeral)

lemma build_tree_fib:
  "build_tree (active_symbols fib_frequencies) (replicate 256 0) = fib_lengths"
  using merge_loop_fib by (simp add: build_tree_def active_symbols_fib walk_fib)

lemma clamp_lengths_fib: "clamp_lengths fib_lengths 15 = fib_lengths"
  by (subst clamp_lengths.simps) (simp add: fib_lengths_def list_ex_iff Let_def)

lemma from_frequencies_fib: "from_frequencies fib_frequencies = Inr fib_lengths"
proof -
  have "length fib_frequencies = 256" by (simp add: fib_frequencies_def)
  moreover have "length (active_symbols fib_frequencies) = 17"
    by (simp add: active_symbols_fib)
  moreover have "active_symbols fib_frequencies \<noteq> []"
    by (simp add: active_symbols_fib)
  ultimately show ?thesis
    by (simp add: from_frequencies_def build_tree_fib clamp_lengths_fib Let_def)
qed

lemma kraft_sum_fib: "kraft_sum fib_lengths = 32769 / 32768"
  by (simp add: kraft_sum_def fib_lengths_def sum_list_replicate)

text \<open>
  C1. \<open>walk\<close> already stores \<open>Math.min(depth, 15)\<close>, so \<open>clamp_lengths\<close> never sees a
  length above 15 and its Kraft repair never runs. For the Fibonacci table the lengths
  returned are at most 15, but their Kraft sum is \<open>1 + 2 ^ -15\<close>: the claim's
  inequality fails.
\<close>

theorem from_frequencies_violates_kraft:
  "from_frequencies fib_frequencies = Inr fib_lengths
   \<and> list_all (\<lambda>l. l \<le> 15) fib_lengths \<and> kraft_sum fib_lengths = 32769 / 32768
   \<and> 1 < kraft_sum fib_lengths"
  by (simp add: from_frequencies_fib kraft_sum_fib) (simp add: fib_lengths_def list_all_iff)

subsection \<open>Code lengths never exceed 15\<close>

lemma walk_max_length:
  "list_all (\<lambda>l. l \<le> 15) lengths \<Longrightarrow> list_all (\<lambda>l. l \<le> 15) (walk t depth lengths)"
proof (induction t arbitrary: depth lengths)
  case (Leaf s)
  have "set (lengths[s := min depth 15]) \<subseteq> insert (min depth 15) (set lengths)"
    by (rule set_update_subset_insert)
  then show ?case using Leaf by (auto simp: list_all_iff)
next
  case (Branch l r)
  then show ?case by simp
qed

lemma clamp_lengths_idle:
  "list_all (\<lambda>l. l \<le> max_len) lengths \<Longrightarrow> clamp_lengths lengths max_len = lengths"
proof -
  assume a: "list_all (\<lambda>l. l \<le> max_len) lengths"
  then have "\<not> list_ex (\<lambda>l. l > max_len) lengths"
    by (auto simp: list_all_iff list_ex_iff)
  moreover have "map (\<lambda>l. if l > max_len then max_len else l) lengths = lengths"
    using a by (intro map_idI) (auto simp: list_all_iff)
  ultimately show ?thesis
    by (subst clamp_lengths.simps) (simp add: Let_def)
qed

lemma from_frequencies_max_length:
  assumes "from_frequencies frequencies = Inr lengths"
  shows "list_all (\<lambda>l. l \<le> 15) lengths"
proof -
  have z: "list_all (\<lambda>l. l \<le> 15) (replicate 256 (0::nat))"
    by (simp add: list_all_iff)
  have one: "list_all (\<lambda>l. l \<le> 15) ((replicate 256 (0::nat))[s := 1])" for s
    using set_update_subset_insert[of "replicate 256 (0::nat)" s 1]
    by (auto simp: list_all_iff)
  have b: "list_all (\<lambda>l. l \<le> 15) (build_tree active (replicate 256 0))" for active
    using z by (auto simp: build_tree_def Let_def walk_max_length split: list.splits)
  show ?thesis
    using assms z one b
    by (auto simp: from_frequencies_def Let_def clamp_lengths_idle split: if_splits)
qed

subsection \<open>Training on one-byte samples\<close>

lemma count_sample_short: "length s < 4 \<Longrightarrow> count_sample s m = m"
  by (simp add: count_sample_def count_grams_def)

lemma fold_count_sample_short:
  "list_all (\<lambda>s. length s < 4) samples \<Longrightarrow> fold count_sample samples m = m"
  by (induction samples arbitrary: m) (simp_all add: count_sample_short)

lemma apply_substitution_single: "c \<noteq> 0 \<Longrightarrow> apply_substitution [c] [] = Some [c]"
  by (simp add: apply_substitution_def apply_substitution_loop.simps)

lemma substitute_all_singles:
  "list_all (\<lambda>s. length s = 1 \<and> hd s \<noteq> 0) samples \<Longrightarrow> substitute_all samples [] = Some samples"
proof (induction samples)
  case Nil
  then show ?case by simp
next
  case (Cons s samples)
  then obtain c where s: "s = [c]" and c: "c \<noteq> 0"
    by (cases s) auto
  show ?case using Cons c by (simp add: s apply_substitution_single)
qed

lemma count_bytes_replicate:
  "c < length f \<Longrightarrow> f ! c + n < 2 ^ 32 \<Longrightarrow> (count_bytes [c] ^^ n) f = f[c := f ! c + n]"
proof (induction n arbitrary: f)
  case 0
  then show ?case by simp
next
  case (Suc n)
  have step: "count_bytes [c] f = f[c := f ! c + 1]"
    using Suc.prems by (simp add: count_bytes_def)
  have "(count_bytes [c] ^^ Suc n) f = (count_bytes [c] ^^ n) (count_bytes [c] f)"
    by (simp only: funpow_Suc_right o_apply)
  also have "\<dots> = (f[c := f ! c + 1])[c := (f[c := f ! c + 1]) ! c + n]"
    unfolding step using Suc.prems by (intro Suc.IH) simp_all
  also have "\<dots> = f[c := f ! c + Suc n]"
    using Suc.prems by simp
  finally show ?case .
qed

lemma count_bytes_single:
  "c < length f \<Longrightarrow> f ! c + 1 < 2 ^ 32 \<Longrightarrow> count_bytes [c] f = f[c := f ! c + 1]"
  by (simp add: count_bytes_def)

lemma fib_samples_short: "list_all (\<lambda>s. length s < 4) fib_samples"
  by (simp add: fib_samples_def list_all_iff)

lemma fib_samples_singles: "list_all (\<lambda>s. length s = 1 \<and> hd s \<noteq> 0) fib_samples"
  by (simp add: fib_samples_def list_all_iff)

lemma fib_samples_frequencies:
  "fold count_bytes fib_samples (replicate 256 0) = fib_frequencies"
proof -
  have "fold count_bytes fib_samples (replicate 256 0)
        = (replicate 256 0)[97 := 1, 98 := 1, 99 := 2, 100 := 3, 101 := 5, 102 := 8, 103 := 13, 104 := 21, 105 := 34, 106 := 55, 107 := 89, 108 := 144, 109 := 233, 110 := 377, 111 := 610, 112 := 987, 113 := 1597]"
    unfolding fib_samples_def
    by (simp add: count_bytes_replicate count_bytes_single numeral_2_eq_2[symmetric])
  also have "\<dots> = fib_frequencies"
    unfolding replicate256_split replicate17
    by (simp add: fib_frequencies_def list_update_append update_Cons_numeral)
  finally show ?thesis .
qed

lemma train_fib: "train fib_samples = Some (Inr fib_dictionary)"
proof -
  have ne: "length fib_samples \<noteq> 0" by (simp add: fib_samples_def)
  have g: "fold count_sample fib_samples [] = []"
    using fib_samples_short by (rule fold_count_sample_short)
  have s: "substitute_all fib_samples [] = Some fib_samples"
    using fib_samples_singles by (rule substitute_all_singles)
  show ?thesis
    using ne
    by (simp add: train_def g candidates_def s fib_samples_frequencies from_frequencies_fib
        bind_err_def new_Dictionary_def fib_dictionary_def Let_def)
qed

subsection \<open>The trained code on a training sample\<close>

lemma code_symbols_fib:
  "code_symbols fib_lengths =
     [(113, 1), (112, 2), (111, 3), (110, 4), (109, 5), (108, 6), (107, 7), (106, 8),
      (105, 9), (104, 10), (103, 11), (102, 12), (101, 13), (100, 14), (97, 15), (98, 15),
      (99, 15)]"
proof -
  have lo: "filter (\<lambda>i. fib_lengths ! i > 0) [0..<97] = []"
    by (simp add: filter_empty_conv fib_lengths_def nth_append)
  have hi: "filter (\<lambda>i. fib_lengths ! i > 0) [114..<256] = []"
    by (auto simp: filter_empty_conv fib_lengths_def nth_append)
  have mid: "filter (\<lambda>i. fib_lengths ! i > 0) [97..<114] = [97..<114]"
    unfolding upt_symbols by (simp add: fib_lengths_def nth_append)
  have "code_symbols fib_lengths
        = sort_key (\<lambda>(s, l). (l, s)) (map (\<lambda>i. (i, fib_lengths ! i)) [97..<114])"
    by (simp only: code_symbols_def upt_split filter_append lo hi mid append_Nil append_Nil2)
  then show ?thesis
    unfolding upt_symbols by (simp add: fib_lengths_def nth_append)
qed

lemma build_encode_table_fib: "build_encode_table fib_lengths = fib_table"
  by (simp add: build_encode_table_def code_symbols_fib fib_table_def push_bit_eq_mult numeral_2_eq_2[symmetric])

lemma build_decode_table_fib: "build_decode_table fib_lengths = fib_decode_map"
proof -
  have lo: "filter (\<lambda>i. snd (fib_table ! i) > 0) [0..<97] = []"
    by (simp add: filter_empty_conv fib_table_def)
  have hi: "filter (\<lambda>i. snd (fib_table ! i) > 0) [114..<256] = []"
    by (simp add: filter_empty_conv fib_table_def)
  have mid: "filter (\<lambda>i. snd (fib_table ! i) > 0) [97..<114] = [97..<114]"
    unfolding upt_symbols by (simp add: fib_table_def)
  have "build_decode_table fib_lengths
        = map (\<lambda>i. (push_bit 16 (snd (fib_table ! i)) OR fst (fib_table ! i),
                     (i, snd (fib_table ! i)))) [97..<114]"
    by (simp only: build_decode_table_def build_encode_table_fib Let_def upt_split
        filter_append lo hi mid append_Nil append_Nil2)
  then show ?thesis
    unfolding upt_symbols
    by (simp add: fib_table_def fib_decode_map_def push_bit_eq_mult numeral_2_eq_2[symmetric])
qed

lemma write_code_pos:
  "0 < b \<Longrightarrow> write_code b code (bits, bit_pos) =
     write_code (b - 1) code
       ((if drop_bit (b - 1) code AND 1 \<noteq> 0
         then bits[bit_pos div 8 := bits ! (bit_pos div 8) OR drop_bit (bit_pos mod 8) 0x80]
         else bits),
        bit_pos + 1)"
  by (cases b) simp_all

lemma fib_table_99: "fib_table ! 99 = (32768, 15)"
  by (simp add: fib_table_def)

lemma fib_table_113: "fib_table ! 113 = (0, 1)"
  by (simp add: fib_table_def)

lemma drop_bit_32768: "b < 15 \<Longrightarrow> drop_bit b (32768::nat) AND 1 = 0"
proof -
  assume "b < 15"
  then have "\<not> bit (32768::nat) b"
    using bit_exp_iff[of 15 b, where 'a=nat] by simp
  then show ?thesis
    by (simp add: and_one_eq bit_iff_odd_drop_bit)
qed

lemma replicate2: "replicate 2 x = [x, x]"
  by (simp add: numeral_2_eq_2)

lemma tree_encode_c: "tree_encode fib_lengths [99] = Inr ([0, 0], 15)"
  by (simp add: tree_encode_def build_encode_table_fib fib_table_99 bind_err_def Let_def
      write_code_pos drop_bit_32768 numeral_2_eq_2[symmetric] replicate2)

lemma dict_compress_c: "dict_compress fib_dictionary [99] = Some (Inr [1, 15, 0, 0])"
  by (simp add: dict_compress_def fib_dictionary_def apply_substitution_single tree_encode_c
      bind_err_def varint_bytes_small)

lemma fold_max_replicate: "fold max (replicate n (0::nat)) a = a"
  by (induction n) simp_all

lemma max_len_fib: "fold max fib_lengths 0 = 15"
  by (simp add: fib_lengths_def fold_max_replicate del: fold_replicate)

lemma find_code_zero: "find_code fib_decode_map (0 # bits) bit_count 15 0 (Suc 0) 0 0
   = (if 1 \<le> bit_count then (Some (113, 1), 0) else (None, 0))"
  by (subst find_code.simps)
    (simp add: byte_opt_def decode_map_get_def fib_decode_map_def Let_def push_bit_eq_mult)

lemma tree_decode_c: "tree_decode fib_lengths [0, 0] 15 1 = Some (Inr [113])"
  unfolding tree_decode_def build_decode_table_fib max_len_fib Let_def
  by (subst decode_loop.simps, simp add: find_code_zero, subst decode_loop.simps, simp)

lemma dict_decompress_c: "dict_decompress fib_dictionary [1, 15, 0, 0] n = Some (Inr [113])"
  using tree_decode_c
  by (simp add: dict_decompress_def decode_varint_single fib_dictionary_def bind_err_def)

text \<open>
  C2. The dictionary trained on \<open>fib_samples\<close> carries the length array above. The
  sample \<open>c\<close> (99) is in the training list; compressing it succeeds and writes 15
  zero bits, the low bits of its 16-bit code; decompressing the result returns \<open>q\<close>
  (113), whatever the original-size argument is.
\<close>

theorem trained_dictionary_round_trip_fails:
  "train fib_samples = Some (Inr fib_dictionary)
   \<and> [99] \<in> set fib_samples
   \<and> dict_compress fib_dictionary [99] = Some (Inr [1, 15, 0, 0])
   \<and> dict_decompress fib_dictionary [1, 15, 0, 0] n = Some (Inr [113])"
  using train_fib dict_compress_c dict_decompress_c[of n]
  by (simp add: fib_samples_def)

subsection \<open>The blob pipeline with the trained dictionary\<close>

lemma detect_cq: "detect_content_type [99, 113, 113, 113, 113, 113] = TEXT_UTF8"
  by (simp add: detect_content_type_def Let_def)

lemma apply_substitution_cq:
  "apply_substitution [99, 113, 113, 113, 113, 113] [] = Some [99, 113, 113, 113, 113, 113]"
  by (simp add: apply_substitution_def apply_substitution_loop.simps)

lemma replicate3: "replicate 3 x = [x, x, x]"
  by (simp add: numeral_3_eq_3)

lemma tree_encode_cq:
  "tree_encode fib_lengths [99, 113, 113, 113, 113, 113] = Inr ([0, 0, 0], 20)"
  using fib_table_99 fib_table_113
  by (simp add: tree_encode_def build_encode_table_fib bind_err_def Let_def
      write_code_pos drop_bit_32768 replicate3)

lemma dict_compress_cq:
  "dict_compress fib_dictionary [99, 113, 113, 113, 113, 113] = Some (Inr [6, 20, 0, 0, 0])"
  using tree_encode_cq
  by (simp add: dict_compress_def fib_dictionary_def apply_substitution_cq
      bind_err_def varint_bytes_small)

lemma compress_blob_cq:
  "compress_blob detect_content_type content_type_value [99, 113, 113, 113, 113, 113] fib_options
   = Some (write_envelope TAG_COMPRESSED_BLOB [METHOD_DICTIONARY, 0x01, 6, 5, 6, 20, 0, 0, 0])"
  using dict_compress_cq
  by (simp add: compress_blob_def detect_cq content_type_value_def negotiate_def try_dictionary_def try_fallback_def
      fib_options_def blob_payload_def Let_def varint_bytes_small METHOD_DICTIONARY_def
      METHOD_NONE_def numeral_2_eq_2[symmetric])

lemma find_code_zero_bit:
  "byte_opt bits (bit_pos div 8) = Some 0 \<Longrightarrow> bit_pos < bit_count \<Longrightarrow>
   find_code fib_decode_map bits bit_count 15 bit_pos (Suc 0) 0 0 = (Some (113, 1), 0)"
  by (subst find_code.simps)
    (simp add: decode_map_get_def fib_decode_map_def Let_def push_bit_eq_mult)

lemma tree_decode_cq:
  "tree_decode fib_lengths [0, 0, 0] 20 6 = Some (Inr [113, 113, 113, 113, 113, 113])"
  unfolding tree_decode_def build_decode_table_fib max_len_fib Let_def
  by (simp add: decode_loop.simps find_code_zero_bit byte_opt_def)

lemma dict_decompress_cq:
  "dict_decompress fib_dictionary [6, 20, 0, 0, 0] n = Some (Inr [113, 113, 113, 113, 113, 113])"
  using tree_decode_cq
  by (simp add: dict_decompress_def decode_varint_single fib_dictionary_def bind_err_def)

lemma decompress_blob_cq:
  "decompress_blob (write_envelope TAG_COMPRESSED_BLOB
        [METHOD_DICTIONARY, c, 6, 5, 6, 20, 0, 0, 0]) fib_options
   = Some (Inr [113, 113, 113, 113, 113, 113])"
  using dict_decompress_cq[of 6]
  by (simp add: decompress_blob_def read_write_envelope TAG_COMPRESSED_BLOB_def
      decode_varint_single slice_def Let_def fib_options_def METHOD_DICTIONARY_def
      METHOD_NONE_def METHOD_DEFLATE_def)

text \<open>
  C3. With the dictionary trained on \<open>fib_samples\<close> and no external compressor:
  \<open>detect_content_type\<close> finds the six bytes of \<open>cqqqqq\<close> to be text, \<open>compress_blob\<close>
  chooses the dictionary method for them (5 bytes against 6) and writes the content
  type \<open>0x01\<close>, and \<open>decompress_blob\<close> of that envelope returns \<open>qqqqqq\<close>.
\<close>

theorem blob_round_trip_fails:
  "train fib_samples = Some (Inr fib_dictionary)
   \<and> detect_content_type [99, 113, 113, 113, 113, 113] = TEXT_UTF8
   \<and> compress_blob detect_content_type content_type_value [99, 113, 113, 113, 113, 113] fib_options
     = Some (write_envelope TAG_COMPRESSED_BLOB [METHOD_DICTIONARY, 0x01, 6, 5, 6, 20, 0, 0, 0])
   \<and> decompress_blob (write_envelope TAG_COMPRESSED_BLOB
         [METHOD_DICTIONARY, 0x01, 6, 5, 6, 20, 0, 0, 0]) fib_options
     = Some (Inr [113, 113, 113, 113, 113, 113])"
  using train_fib detect_cq compress_blob_cq decompress_blob_cq[of 1]
  by simp

end
